theory Spec2Isabelle
  imports Main
begin

section \<open>Promises\<close>

text \<open>
  The library communicates through promises: \<^verbatim>\<open>Promise.withResolvers()\<close>,
  \<^verbatim>\<open>new Promise(...)\<close>, \<^verbatim>\<open>Promise.resolve()\<close> and the promise every
  \<^verbatim>\<open>async\<close> function returns. A promise is an address; the heap records, oldest
  first, which promises have been settled and how. A promise that is allocated and has no
  entry is pending. Settling a promise twice keeps the first settlement, as in JavaScript.
\<close>

datatype 'v settlement = Fulfilled | Rejected 'v

record 'v heap =
  settled :: "(nat \<times> 'v settlement) list"
  fresh :: nat

definition status :: "('v, 'm) heap_scheme \<Rightarrow> nat \<Rightarrow> 'v settlement option" where
  "status h p = map_of (settled h) p"

definition new_promise :: "('v, 'm) heap_scheme \<Rightarrow> nat \<times> ('v, 'm) heap_scheme" where
  "new_promise h = (fresh h, h\<lparr>fresh := Suc (fresh h)\<rparr>)"

definition settle :: "nat \<Rightarrow> 'v settlement \<Rightarrow> ('v, 'm) heap_scheme \<Rightarrow> ('v, 'm) heap_scheme" where
  "settle p r h = (if status h p = None then h\<lparr>settled := settled h @ [(p, r)]\<rparr> else h)"

text \<open>
  What the library's own code throws: the two \<^verbatim>\<open>Error\<close> objects it constructs, with
  their messages, and the \<^verbatim>\<open>TypeError\<close> of the runtime when the code calls something
  that is not a function, or a built-in function that refuses its receiver or arguments
  (its message is the engine's). What a promise of the controller is rejected with is one
  of these, the value a user callback threw, or the value an observer threw.
\<close>

datatype error =
    InvalidTransition string string
  | UnknownOperator string
  | TypeError

fun message :: "error \<Rightarrow> string option" where
  "message (InvalidTransition from_state to_state) =
     Some (''Invalid transition from '' @ from_state @ '' to '' @ to_state)"
| "message (UnknownOperator operator) = Some (''Unknown operator name: '' @ operator)"
| "message TypeError = None"

datatype 'e failure = LibraryError error | OperationFailure 'e | ObserverFailure 'e

section \<open>Plain objects\<close>

text \<open>
  The library keeps its tables in plain objects: the literals \<^verbatim>\<open>{}\<close> of
  \<^verbatim>\<open>#transitionPromises\<close> and \<^verbatim>\<open>#transitionResolvers\<close>, the literal of
  \<^verbatim>\<open>#operations\<close>, the frozen literal of the controller's \<^verbatim>\<open>#transitions\<close>, and
  the object a caller passes to \<^verbatim>\<open>new StateMachine\<close>. It reads them with
  \<^verbatim>\<open>obj[key]\<close>, which finds the object's own property of that name and, when there is
  none, the member of that name that the object inherits from \<^verbatim>\<open>Object.prototype\<close>.
  A table is the finite map of its own properties; \<open>Object_prototype\<close> lists the names
  of the inherited members, which are those of the language standard. Every inherited
  member is truthy: eleven are functions, and \<^verbatim>\<open>__proto__\<close> reads as the prototype
  object itself.
\<close>

definition Object_prototype :: "string list" where
  "Object_prototype =
     [''constructor'', ''__defineGetter__'', ''__defineSetter__'', ''hasOwnProperty'',
      ''__lookupGetter__'', ''__lookupSetter__'', ''isPrototypeOf'', ''propertyIsEnumerable'',
      ''toString'', ''valueOf'', ''__proto__'', ''toLocaleString'']"

datatype 'a property = Own 'a | Inherited | Absent

definition property :: "(string \<rightharpoonup> 'a) \<Rightarrow> string \<Rightarrow> 'a property" where
  "property obj key =
     (case obj key of
        Some v \<Rightarrow> Own v
      | None \<Rightarrow> if key \<in> set Object_prototype then Inherited else Absent)"

text \<open>
  What happens when the library calls an inherited member, always without arguments.
  Called as \<^verbatim>\<open>obj[key]()\<close>, with the table as receiver: \<^verbatim>\<open>__proto__\<close> is not a
  function, and \<^verbatim>\<open>__defineGetter__\<close> and \<^verbatim>\<open>__defineSetter__\<close> refuse a missing
  accessor function, so these three throw \<^verbatim>\<open>TypeError\<close>; the others return a value
  and change nothing. Called as \<^verbatim>\<open>f()\<close>, without a receiver (the module is strict
  code): \<^verbatim>\<open>constructor\<close> (which is \<^verbatim>\<open>Object\<close>), \<^verbatim>\<open>toString\<close> and
  \<^verbatim>\<open>isPrototypeOf\<close> return a value; the others convert the missing receiver to an
  object first, or are not a function, and throw \<^verbatim>\<open>TypeError\<close>.
\<close>

definition method_call_throws :: "string \<Rightarrow> bool" where
  "method_call_throws name =
     (name \<in> set [''__proto__'', ''__defineGetter__'', ''__defineSetter__''])"

definition plain_call_throws :: "string \<Rightarrow> bool" where
  "plain_call_throws name =
     (name \<notin> set [''constructor'', ''toString'', ''isPrototypeOf''])"

section \<open>StateMachine\<close>

text \<open>
  The class \<^verbatim>\<open>StateMachine\<close> of \<^verbatim>\<open>src/index.js\<close>. Its fields
  \<^verbatim>\<open>#transitions\<close>, \<^verbatim>\<open>#transitionPromises\<close> and \<^verbatim>\<open>#transitionResolvers\<close>
  are plain objects; state labels are strings. A resolver is identified with the promise
  it resolves.
\<close>

record StateMachine =
  current :: string
  transitions :: "string \<rightharpoonup> string list"
  transitionPromises :: "string \<rightharpoonup> nat"
  transitionResolvers :: "string \<rightharpoonup> nat"

definition new_StateMachine :: "(string \<rightharpoonup> string list) \<Rightarrow> StateMachine" where
  "new_StateMachine ts =
     \<lparr>current = ''init'', transitions = ts,
      transitionPromises = Map.empty, transitionResolvers = Map.empty\<rparr>"

text \<open>
  \<^verbatim>\<open>allows\<close>. Its first line, \<^verbatim>\<open>this.#transitions[this.#current] || []\<close>, yields
  the own array of the current state, the empty array when nothing is found, and an
  inherited member, which is not an array, when the current state has no own entry and is
  named like one (\<open>None\<close>). Its second line calls \<^verbatim>\<open>allowed.includes(toState)\<close>,
  which on an inherited member is a call of \<^verbatim>\<open>undefined\<close>: \<open>allows_throws\<close> says
  that the call of \<^verbatim>\<open>allows\<close> throws \<^verbatim>\<open>TypeError\<close>, whatever its argument, and
  \<open>allows\<close> is the boolean it returns when it does not throw. Every caller below tests
  \<open>allows_throws\<close> first.
\<close>

definition allowed :: "StateMachine \<Rightarrow> string list option" where
  "allowed m =
     (case property (transitions m) (current m) of
        Own xs \<Rightarrow> Some xs
      | Inherited \<Rightarrow> None
      | Absent \<Rightarrow> Some [])"

definition allows_throws :: "StateMachine \<Rightarrow> bool" where
  "allows_throws m = (allowed m = None)"

definition allows :: "string \<Rightarrow> StateMachine \<Rightarrow> bool" where
  "allows toState m = (case allowed m of Some xs \<Rightarrow> toState \<in> set xs | None \<Rightarrow> False)"

text \<open>
  \<^verbatim>\<open>until\<close> returns what it finds: a promise, or, when \<^verbatim>\<open>queryState\<close> has no
  own entry in \<^verbatim>\<open>#transitionPromises\<close> and is named like an inherited member, that
  member, which is truthy, so that nothing is created. \<^verbatim>\<open>Promise.resolve()\<close> is a new
  promise that is fulfilled from the start.
\<close>

datatype awaitable = Promise nat | Member string

definition until ::
  "string \<Rightarrow> StateMachine \<times> ('v, 'm) heap_scheme
     \<Rightarrow> awaitable \<times> StateMachine \<times> ('v, 'm) heap_scheme"
where
  "until queryState = (\<lambda>(m, h).
     if current m = queryState then
       (let (p, h1) = new_promise h in (Promise p, m, settle p Fulfilled h1))
     else
       (case property (transitionPromises m) queryState of
          Own p \<Rightarrow> (Promise p, m, h)
        | Inherited \<Rightarrow> (Member queryState, m, h)
        | Absent \<Rightarrow>
            (let (p, h1) = new_promise h
             in (Promise p,
                 m\<lparr>transitionResolvers := (transitionResolvers m)(queryState \<mapsto> p),
                   transitionPromises := (transitionPromises m)(queryState \<mapsto> p)\<rparr>,
                 h1))))"

text \<open>
  \<^verbatim>\<open>transition\<close>; the first component is the error thrown, if any. It throws before
  it changes anything when \<^verbatim>\<open>allows\<close> throws or returns false. Otherwise it sets
  \<^verbatim>\<open>#current\<close> and looks \<^verbatim>\<open>toState\<close> up in \<^verbatim>\<open>#transitionResolvers\<close>: an own
  resolver is called and both entries are deleted; an inherited member is called in its
  place, which throws with \<^verbatim>\<open>#current\<close> already changed or returns, and then the two
  \<^verbatim>\<open>delete\<close>s run.
\<close>

definition transition ::
  "string \<Rightarrow> StateMachine \<times> ('v, 'm) heap_scheme
     \<Rightarrow> error option \<times> StateMachine \<times> ('v, 'm) heap_scheme"
where
  "transition toState = (\<lambda>(m, h).
     if allows_throws m then (Some TypeError, m, h)
     else if \<not> allows toState m then (Some (InvalidTransition (current m) toState), m, h)
     else
       (let m1 = m\<lparr>current := toState\<rparr>;
            m2 = m1\<lparr>transitionResolvers := (transitionResolvers m1)(toState := None),
                    transitionPromises := (transitionPromises m1)(toState := None)\<rparr>
        in case property (transitionResolvers m1) toState of
             Own p \<Rightarrow> (None, m2, settle p Fulfilled h)
           | Inherited \<Rightarrow>
               if method_call_throws toState then (Some TypeError, m1, h) else (None, m2, h)
           | Absent \<Rightarrow> (None, m1, h)))"

section \<open>Queue\<close>

text \<open>
  The class \<^verbatim>\<open>Queue\<close>. An entry of \<^verbatim>\<open>#items\<close> is the item with the
  \<^verbatim>\<open>resolve\<close>/\<^verbatim>\<open>reject\<close> pair of its completion handle, identified with that
  promise. \<^verbatim>\<open>#processQueue\<close> is an \<^verbatim>\<open>async\<close> function: \<open>draining\<close>
  holds its activations that are suspended at \<^verbatim>\<open>await this.#processor(item)\<close>, each
  with the promise it awaits and the \<^verbatim>\<open>item\<close> and handle it destructured before
  the \<^verbatim>\<open>await\<close>. The record extends the heap, so that the processor and the queue
  work on the same promises.
\<close>

record ('a, 'v) Queue = "'v heap" +
  items :: "('a \<times> nat) list"
  processing :: bool
  draining :: "(nat \<times> 'a \<times> nat) list"

type_synonym ('a, 'v, 'm) processor =
  "'a \<Rightarrow> ('a, 'v, 'm) Queue_scheme \<Rightarrow> nat \<times> ('a, 'v, 'm) Queue_scheme"

text \<open>
  The \<^verbatim>\<open>while\<close> loop of \<^verbatim>\<open>#processQueue\<close>, from its test to the next
  \<^verbatim>\<open>await\<close> or to the \<^verbatim>\<open>finally\<close> block: the processor is called
  synchronously, and the activation suspends on the promise it returned.
\<close>

definition processLoop ::
  "('a, 'v, 'm) processor \<Rightarrow> ('a, 'v, 'm) Queue_scheme \<Rightarrow> ('a, 'v, 'm) Queue_scheme"
where
  "processLoop processor q =
     (case items q of
        [] \<Rightarrow> q\<lparr>processing := False\<rparr>
      | (item, handle) # _ \<Rightarrow>
          (let (p, q1) = processor item q
           in q1\<lparr>draining := draining q1 @ [(p, item, handle)]\<rparr>))"

definition processQueue ::
  "('a, 'v, 'm) processor \<Rightarrow> ('a, 'v, 'm) Queue_scheme \<Rightarrow> ('a, 'v, 'm) Queue_scheme"
where
  "processQueue processor q =
     (if processing q \<or> items q = [] then q
      else processLoop processor (q\<lparr>processing := True\<rparr>))"

definition enqueue ::
  "('a, 'v, 'm) processor \<Rightarrow> 'a \<Rightarrow> ('a, 'v, 'm) Queue_scheme
     \<Rightarrow> nat \<times> ('a, 'v, 'm) Queue_scheme"
where
  "enqueue processor item q =
     (let (handle, q1) = new_promise q;
          q2 = q1\<lparr>items := items q1 @ [(item, handle)]\<rparr>
      in (handle, if \<not> processing q2 then processQueue processor q2 else q2))"

text \<open>
  The rest of an iteration, run when the awaited promise has settled: \<^verbatim>\<open>resolve()\<close>
  or \<^verbatim>\<open>reject(error)\<close> on the destructured handle, \<^verbatim>\<open>this.#items.shift()\<close>
  (which leaves an empty array empty), and the loop again. While the awaited promise is
  pending the activation stays suspended.
\<close>

definition resumeProcessQueue ::
  "('a, 'v, 'm) processor \<Rightarrow> nat \<times> 'a \<times> nat \<Rightarrow> ('a, 'v, 'm) Queue_scheme
     \<Rightarrow> ('a, 'v, 'm) Queue_scheme"
where
  "resumeProcessQueue processor frame q =
     (case frame of (p, item, handle) \<Rightarrow>
        (case status q p of
           None \<Rightarrow> q
         | Some outcome \<Rightarrow>
             (let q1 = q\<lparr>draining := remove1 frame (draining q)\<rparr>;
                  q2 = settle handle outcome q1;
                  q3 = q2\<lparr>items := tl (items q2)\<rparr>
              in processLoop processor q3)))"

definition awaiting :: "nat \<Rightarrow> (nat \<times> 'b) list \<Rightarrow> (nat \<times> 'b) option" where
  "awaiting p frames = find (\<lambda>f. fst f = p) frames"

subsection \<open>A queue with a processor of the caller's\<close>

text \<open>
  A queue on its own, as the tests build it: the processor is the caller's
  \<^verbatim>\<open>async\<close> function. Calling it returns a new pending promise, which the caller's
  code settles when it likes; \<open>started\<close> lists the invocations. The events are the
  maximal synchronous runs: a call of \<^verbatim>\<open>enqueue\<close>, the processor's promise being
  settled, and a suspended activation taken up again.
\<close>

record ('a, 'v) Harness = "('a, 'v) Queue" +
  started :: "(nat \<times> 'a) list"

definition new_Queue :: "('a, 'v) Harness" where
  "new_Queue = \<lparr>settled = [], fresh = 0, items = [], processing = False, draining = [],
                started = []\<rparr>"

definition harness_processor :: "'a \<Rightarrow> ('a, 'v) Harness \<Rightarrow> nat \<times> ('a, 'v) Harness" where
  "harness_processor item q =
     (let (p, q1) = new_promise q in (p, q1\<lparr>started := started q1 @ [(p, item)]\<rparr>))"

datatype ('a, 'v) queue_event = QEnqueue 'a | QSettle nat "'v settlement" | QWake nat

fun queue_step :: "('a, 'v) queue_event \<Rightarrow> ('a, 'v) Harness \<Rightarrow> ('a, 'v) Harness" where
  "queue_step (QEnqueue item) q = snd (enqueue harness_processor item q)"
| "queue_step (QSettle p outcome) q =
     (if p \<in> fst ` set (started q) then settle p outcome q else q)"
| "queue_step (QWake p) q =
     (case awaiting p (draining q) of
        None \<Rightarrow> q
      | Some frame \<Rightarrow> resumeProcessQueue harness_processor frame q)"

text \<open>A run of events, with the handles the \<^verbatim>\<open>enqueue\<close> calls returned, in call order.\<close>

fun queue_run ::
  "('a, 'v) queue_event list \<Rightarrow> ('a, 'v) Harness \<times> nat list \<Rightarrow> ('a, 'v) Harness \<times> nat list"
where
  "queue_run [] (q, hs) = (q, hs)"
| "queue_run (QEnqueue item # evs) (q, hs) =
     queue_run evs (queue_step (QEnqueue item) q, hs @ [fst (enqueue harness_processor item q)])"
| "queue_run (ev # evs) (q, hs) = queue_run evs (queue_step ev q, hs)"

definition in_flight :: "('a, 'v) Harness \<Rightarrow> nat list" where
  "in_flight q = filter (\<lambda>p. status q p = None) (map fst (started q))"

definition settled_of :: "nat list \<Rightarrow> ('v, 'm) heap_scheme \<Rightarrow> nat list" where
  "settled_of hs h = filter (\<lambda>p. p \<in> set hs) (map fst (settled h))"

section \<open>Lifecycle\<close>

text \<open>
  The class \<^verbatim>\<open>Lifecycle\<close>. An operation is what a read of \<^verbatim>\<open>#operations\<close>
  yields: the module's \<^verbatim>\<open>noop\<close>, the callback the user supplied under that name, or,
  for a name that is not one of the four, the inherited member of that name. A queued item
  is the object \<^verbatim>\<open>{operation, interimState, toState}\<close>.
\<close>

datatype operation = noop | Callback string | Builtin string

record descriptor =
  operation :: operation
  interimState :: string
  toState :: string

text \<open>
  The record extends the queue (the field \<^verbatim>\<open>#queue\<close>) and the heap.
  \<^verbatim>\<open>#transitions\<close> is the frozen constant \<open>lifecycle_transitions\<close>.

  The observer \<^verbatim>\<open>#onTransition\<close> is \<^verbatim>\<open>noop\<close> or the function last given to
  \<^verbatim>\<open>on\<close>. The library calls it synchronously with the new state and ignores what it
  returns, so an observer is the function from the state it is called with to the value it
  throws, if any; \<^verbatim>\<open>noop\<close> never throws. No event below calls the observer more than
  once, so an observer that behaves differently from call to call is an observer replaced
  by \<^verbatim>\<open>on\<close> between events; what an observer does to the controller are calls of
  public methods, which are events of their own.

  \<open>running\<close> holds the activations of \<^verbatim>\<open>#run\<close> suspended at
  \<^verbatim>\<open>await operation()\<close>: the promise awaited, \<^verbatim>\<open>interimState\<close>,
  \<^verbatim>\<open>toState\<close> and the promise \<^verbatim>\<open>#run\<close> returned. \<open>waiting\<close> holds the
  activations of \<^verbatim>\<open>until\<close> suspended at their \<^verbatim>\<open>await\<close>: the promise awaited
  and the promise \<^verbatim>\<open>until\<close> returned. \<open>invocations\<close> lists the calls of user
  callbacks (name and promise returned), \<open>notifications\<close> the states the observer was
  called with.
\<close>

record 'e Lifecycle = "(descriptor, 'e failure) Queue" +
  stateMachine :: StateMachine
  operations :: "string \<rightharpoonup> operation"
  onTransition :: "string \<Rightarrow> 'e option"
  running :: "(nat \<times> string \<times> string \<times> nat) list"
  waiting :: "(nat \<times> nat) list"
  invocations :: "(string \<times> nat) list"
  notifications :: "string list"

definition lifecycle_transitions :: "string \<rightharpoonup> string list" where
  "lifecycle_transitions = map_of
     [(''init'', [''opening'']),
      (''opening'', [''opened'']),
      (''opened'', [''suspending'', ''closing'']),
      (''suspending'', [''suspended'', ''closing'']),
      (''suspended'', [''resuming'', ''closing'']),
      (''resuming'', [''resumed'']),
      (''resumed'', [''suspending'', ''closing'']),
      (''closing'', [''closed'']),
      (''closed'', [])]"

definition lifecycle_states :: "string list" where
  "lifecycle_states =
     [''init'', ''opening'', ''opened'', ''suspending'', ''suspended'', ''resuming'',
      ''resumed'', ''closing'', ''closed'']"

text \<open>
  The constructor; \<open>supplied\<close> are the names under which the argument holds a callback
  (\<^verbatim>\<open>operations.open || noop\<close>, and so on).
\<close>

definition new_Lifecycle :: "string list \<Rightarrow> 'e Lifecycle" where
  "new_Lifecycle supplied =
     \<lparr>settled = [], fresh = 0, items = [], processing = False, draining = [],
      stateMachine = new_StateMachine lifecycle_transitions,
      operations = map_of
        (map (\<lambda>name. (name, if name \<in> set supplied then Callback name else noop))
           [''open'', ''close'', ''suspend'', ''resume'']),
      onTransition = (\<lambda>_. None), running = [], waiting = [], invocations = [],
      notifications = []\<rparr>"

definition machine_transition ::
  "string \<Rightarrow> 'e Lifecycle \<Rightarrow> error option \<times> 'e Lifecycle" where
  "machine_transition target w =
     (case transition target (stateMachine w, w) of
        (thrown, m, w1) \<Rightarrow> (thrown, w1\<lparr>stateMachine := m\<rparr>))"

text \<open>
  \<^verbatim>\<open>this.#onTransition(state)\<close>: the call is recorded, and the first component is the
  value the observer throws, if any.
\<close>

definition notify :: "string \<Rightarrow> 'e Lifecycle \<Rightarrow> 'e option \<times> 'e Lifecycle" where
  "notify s w = (onTransition w s, w\<lparr>notifications := notifications w @ [s]\<rparr>)"

text \<open>
  \<^verbatim>\<open>operation()\<close>, with the promise that \<^verbatim>\<open>await\<close> then waits for.
  \<^verbatim>\<open>noop\<close> returns a promise that is fulfilled already; a user callback is called and
  returns a promise that its own code settles (a callback that throws is a callback whose
  promise is rejected). An inherited member, called without a receiver, returns a value
  that is no promise, for which \<^verbatim>\<open>await\<close> makes a promise that is fulfilled already,
  or throws \<^verbatim>\<open>TypeError\<close>, which is a promise rejected from the start.
\<close>

definition invoke :: "operation \<Rightarrow> 'e Lifecycle \<Rightarrow> nat \<times> 'e Lifecycle" where
  "invoke f w =
     (let (p, w1) = new_promise w
      in case f of
           noop \<Rightarrow> (p, settle p Fulfilled w1)
         | Callback name \<Rightarrow> (p, w1\<lparr>invocations := invocations w1 @ [(name, p)]\<rparr>)
         | Builtin name \<Rightarrow>
             (p, settle p (if plain_call_throws name then Rejected (LibraryError TypeError)
                           else Fulfilled) w1))"

text \<open>
  \<^verbatim>\<open>#run\<close> up to its \<^verbatim>\<open>await\<close>. It is an \<^verbatim>\<open>async\<close> function: it returns a
  promise, which is fulfilled when the body returns and rejected when the body throws.
\<close>

definition run :: "descriptor \<Rightarrow> 'e Lifecycle \<Rightarrow> nat \<times> 'e Lifecycle" where
  "run d w =
     (let (r, w1) = new_promise w
      in if allows_throws (stateMachine w1) then (r, settle r (Rejected (LibraryError TypeError)) w1)
         else if \<not> allows (interimState d) (stateMachine w1) then (r, settle r Fulfilled w1)
         else
           (case machine_transition (interimState d) w1 of
              (Some e, w2) \<Rightarrow> (r, settle r (Rejected (LibraryError e)) w2)
            | (None, w2) \<Rightarrow>
                (case notify (interimState d) w2 of
                   (Some x, w3) \<Rightarrow> (r, settle r (Rejected (ObserverFailure x)) w3)
                 | (None, w3) \<Rightarrow>
                     (let (p, w4) = invoke (operation d) w3
                      in (r, w4\<lparr>running := running w4
                                 @ [(p, interimState d, toState d, r)]\<rparr>)))))"

text \<open>\<^verbatim>\<open>#run\<close> after its \<^verbatim>\<open>await\<close>, once the awaited promise has settled.\<close>

definition resumeRun :: "nat \<times> string \<times> string \<times> nat \<Rightarrow> 'e Lifecycle \<Rightarrow> 'e Lifecycle" where
  "resumeRun frame w =
     (case frame of (p, interim, target, r) \<Rightarrow>
        (case status w p of
           None \<Rightarrow> w
         | Some (Rejected e) \<Rightarrow> settle r (Rejected e) (w\<lparr>running := remove1 frame (running w)\<rparr>)
         | Some Fulfilled \<Rightarrow>
             (let w1 = w\<lparr>running := remove1 frame (running w)\<rparr>
              in if current (stateMachine w1) \<noteq> interim then settle r Fulfilled w1
                 else if allows_throws (stateMachine w1) then
                   settle r (Rejected (LibraryError TypeError)) w1
                 else if \<not> allows target (stateMachine w1) then settle r Fulfilled w1
                 else
                   (case machine_transition target w1 of
                      (Some e, w2) \<Rightarrow> settle r (Rejected (LibraryError e)) w2
                    | (None, w2) \<Rightarrow>
                        (case notify target w2 of
                           (Some x, w3) \<Rightarrow> settle r (Rejected (ObserverFailure x)) w3
                         | (None, w3) \<Rightarrow> settle r Fulfilled w3)))))"

text \<open>\<^verbatim>\<open>#enqueue\<close>; the queue's processor is \<^verbatim>\<open>(item) => this.#run(...)\<close>.\<close>

definition lifecycle_enqueue ::
  "operation \<Rightarrow> string \<Rightarrow> string \<Rightarrow> 'e Lifecycle \<Rightarrow> nat \<times> 'e Lifecycle" where
  "lifecycle_enqueue f interim target w =
     enqueue run \<lparr>operation = f, interimState = interim, toState = target\<rparr> w"

text \<open>
  The public methods. \<^verbatim>\<open>open\<close>, \<^verbatim>\<open>close\<close>, \<^verbatim>\<open>suspend\<close>, \<^verbatim>\<open>resume\<close> and
  \<^verbatim>\<open>transition\<close> return the promise of the queue's \<^verbatim>\<open>enqueue\<close> (the promise of
  an \<^verbatim>\<open>async\<close> function that returns a promise follows that promise);
  \<^verbatim>\<open>transition\<close> returns a rejected promise when \<^verbatim>\<open>this.#operations[operator]\<close>
  finds nothing, and enqueues what it finds otherwise, an inherited member too.
\<close>

definition the_operation :: "string \<Rightarrow> 'e Lifecycle \<Rightarrow> operation" where
  "the_operation name w = (case operations w name of Some f \<Rightarrow> f | None \<Rightarrow> noop)"

definition lifecycle_transition ::
  "string \<Rightarrow> string \<Rightarrow> string \<Rightarrow> 'e Lifecycle \<Rightarrow> nat \<times> 'e Lifecycle" where
  "lifecycle_transition operator interim target w =
     (case property (operations w) operator of
        Absent \<Rightarrow>
          (let (r, w1) = new_promise w
           in (r, settle r (Rejected (LibraryError (UnknownOperator operator))) w1))
      | Own f \<Rightarrow> lifecycle_enqueue f interim target w
      | Inherited \<Rightarrow> lifecycle_enqueue (Builtin operator) interim target w)"

definition lifecycle_open :: "'e Lifecycle \<Rightarrow> nat \<times> 'e Lifecycle" where
  "lifecycle_open w = lifecycle_enqueue (the_operation ''open'' w) ''opening'' ''opened'' w"

definition lifecycle_close :: "'e Lifecycle \<Rightarrow> nat \<times> 'e Lifecycle" where
  "lifecycle_close w = lifecycle_enqueue (the_operation ''close'' w) ''closing'' ''closed'' w"

definition lifecycle_suspend :: "'e Lifecycle \<Rightarrow> nat \<times> 'e Lifecycle" where
  "lifecycle_suspend w =
     lifecycle_enqueue (the_operation ''suspend'' w) ''suspending'' ''suspended'' w"

definition lifecycle_resume :: "'e Lifecycle \<Rightarrow> nat \<times> 'e Lifecycle" where
  "lifecycle_resume w =
     lifecycle_enqueue (the_operation ''resume'' w) ''resuming'' ''resumed'' w"

text \<open>
  \<^verbatim>\<open>until\<close> up to its \<^verbatim>\<open>await\<close>. For a value that is no promise,
  \<^verbatim>\<open>await\<close> makes a promise that is fulfilled already and waits for that.
\<close>

definition lifecycle_until :: "string \<Rightarrow> 'e Lifecycle \<Rightarrow> nat \<times> 'e Lifecycle" where
  "lifecycle_until queryState w =
     (let (u, w1) = new_promise w
      in case until queryState (stateMachine w1, w1) of
           (Promise p, m, w2) \<Rightarrow>
             (u, w2\<lparr>stateMachine := m, waiting := waiting w2 @ [(p, u)]\<rparr>)
         | (Member name, m, w2) \<Rightarrow>
             (let (p, w3) = new_promise w2;
                  w4 = settle p Fulfilled w3
              in (u, w4\<lparr>stateMachine := m, waiting := waiting w4 @ [(p, u)]\<rparr>)))"

text \<open>\<^verbatim>\<open>until\<close> after its \<^verbatim>\<open>await\<close>, once the awaited promise has settled.\<close>

definition resumeUntil :: "nat \<times> nat \<Rightarrow> 'e Lifecycle \<Rightarrow> 'e Lifecycle" where
  "resumeUntil frame w =
     (case frame of (p, u) \<Rightarrow>
        (case status w p of
           None \<Rightarrow> w
         | Some (Rejected e) \<Rightarrow> settle u (Rejected e) (w\<lparr>waiting := remove1 frame (waiting w)\<rparr>)
         | Some Fulfilled \<Rightarrow> settle u Fulfilled (w\<lparr>waiting := remove1 frame (waiting w)\<rparr>)))"

definition lifecycle_on :: "(string \<Rightarrow> 'e option) \<Rightarrow> 'e Lifecycle \<Rightarrow> 'e Lifecycle" where
  "lifecycle_on observer w = w\<lparr>onTransition := observer\<rparr>"

definition lifecycle_is :: "string list \<Rightarrow> 'e Lifecycle \<Rightarrow> bool" where
  "lifecycle_is queryStates w = (current (stateMachine w) \<in> set queryStates)"

definition lifecycle_not :: "string list \<Rightarrow> 'e Lifecycle \<Rightarrow> bool" where
  "lifecycle_not queryStates w = (current (stateMachine w) \<notin> set queryStates)"

definition reset :: "'e Lifecycle \<Rightarrow> 'e Lifecycle" where
  "reset w = w\<lparr>stateMachine := new_StateMachine lifecycle_transitions\<rparr>"

subsection \<open>Events\<close>

text \<open>
  The events of a controller are the maximal synchronous runs of its code: a call of a
  public method (from anywhere: the top level, a user callback, an observer), the promise
  of a user callback being settled by the callback's code, and a suspended activation
  (\<^verbatim>\<open>#run\<close>, \<^verbatim>\<open>#processQueue\<close> or \<^verbatim>\<open>until\<close>) taken up again after the
  promise it awaits has settled. Any order of events is a run; JavaScript's scheduler
  picks some of them.
\<close>

datatype 'e call =
    Open | Close | Suspend | Resume
  | Transition string string string
  | Until string
  | On "string \<Rightarrow> 'e option"
  | Reset

fun perform :: "'e call \<Rightarrow> 'e Lifecycle \<Rightarrow> nat option \<times> 'e Lifecycle" where
  "perform Open w = (case lifecycle_open w of (h, w1) \<Rightarrow> (Some h, w1))"
| "perform Close w = (case lifecycle_close w of (h, w1) \<Rightarrow> (Some h, w1))"
| "perform Suspend w = (case lifecycle_suspend w of (h, w1) \<Rightarrow> (Some h, w1))"
| "perform Resume w = (case lifecycle_resume w of (h, w1) \<Rightarrow> (Some h, w1))"
| "perform (Transition operator interim target) w =
     (case lifecycle_transition operator interim target w of (h, w1) \<Rightarrow> (Some h, w1))"
| "perform (Until queryState) w =
     (case lifecycle_until queryState w of (h, w1) \<Rightarrow> (Some h, w1))"
| "perform (On observer) w = (None, lifecycle_on observer w)"
| "perform Reset w = (None, reset w)"

datatype 'e event = Call "'e call" | Settle nat "'e settlement" | Wake nat

fun thrown :: "'e settlement \<Rightarrow> 'e failure settlement" where
  "thrown Fulfilled = Fulfilled"
| "thrown (Rejected e) = Rejected (OperationFailure e)"

fun step :: "'e event \<Rightarrow> 'e Lifecycle \<Rightarrow> 'e Lifecycle" where
  "step (Call c) w = snd (perform c w)"
| "step (Settle p outcome) w =
     (if p \<in> snd ` set (invocations w) then settle p (thrown outcome) w else w)"
| "step (Wake p) w =
     (case awaiting p (running w) of
        Some frame \<Rightarrow> resumeRun frame w
      | None \<Rightarrow>
          (case awaiting p (draining w) of
             Some frame \<Rightarrow> resumeProcessQueue run frame w
           | None \<Rightarrow>
               (case awaiting p (waiting w) of
                  Some frame \<Rightarrow> resumeUntil frame w
                | None \<Rightarrow> w)))"

fun exec :: "'e event list \<Rightarrow> 'e Lifecycle \<Rightarrow> 'e Lifecycle" where
  "exec [] w = w"
| "exec (ev # evs) w = exec evs (step ev w)"

section \<open>Runs of a state machine\<close>

text \<open>
  A state machine on its own, as the tests build it: its callers call \<^verbatim>\<open>until\<close> and
  \<^verbatim>\<open>transition\<close> in any order, starting from a new machine and a heap without
  promises.
\<close>

datatype machine_event = MUntil string | MTransition string

definition no_promises :: "'v heap" where
  "no_promises = \<lparr>settled = [], fresh = 0\<rparr>"

fun machine_step :: "machine_event \<Rightarrow> StateMachine \<times> 'v heap \<Rightarrow> StateMachine \<times> 'v heap" where
  "machine_step (MUntil queryState) st = snd (until queryState st)"
| "machine_step (MTransition target) st =
     snd (transition target st)"

fun machine_exec ::
  "machine_event list \<Rightarrow> StateMachine \<times> 'v heap \<Rightarrow> StateMachine \<times> 'v heap" where
  "machine_exec [] st = st"
| "machine_exec (ev # evs) st = machine_exec evs (machine_step ev st)"

text \<open>Only allocated promises are settled.\<close>

definition heap_ok :: "('v, 'm) heap_scheme \<Rightarrow> bool" where
  "heap_ok h = list_all (\<lambda>e. fst e < fresh h) (settled h)"

text \<open>
  What holds of every queue a run reaches, with the handles \<open>hs\<close> issued so far: at most
  one activation of \<^verbatim>\<open>#processQueue\<close> exists, and \<^verbatim>\<open>#processing\<close> is set exactly
  while it does; it works on the head of \<^verbatim>\<open>#items\<close>, on a promise the processor
  returned; the handles settled so far, in the order of their settlement, followed by the
  handles still queued, are the handles issued; promises are allocated before use, and a
  processor promise is never a handle; a processor promise that is pending is the one the
  activation awaits.
\<close>

definition queue_ok :: "('a, 'v) Harness \<times> nat list \<Rightarrow> bool" where
  "queue_ok = (\<lambda>(q, hs).
     heap_ok q
     \<and> length (draining q) \<le> 1
     \<and> (processing q \<longleftrightarrow> draining q \<noteq> [])
     \<and> (items q = [] \<longleftrightarrow> draining q = [])
     \<and> list_all (\<lambda>f. hd (items q) = snd f \<and> fst f \<in> fst ` set (started q)) (draining q)
     \<and> settled_of hs q @ map snd (items q) = hs
     \<and> distinct hs \<and> list_all (\<lambda>h. h < fresh q) hs
     \<and> distinct (map fst (started q))
     \<and> list_all (\<lambda>p. p < fresh q \<and> p \<notin> set hs) (map fst (started q))
     \<and> list_all (\<lambda>p. p \<in> fst ` set (draining q)) (in_flight q))"

section \<open>Invariants of a controller\<close>

text \<open>
  The state of a controller stays among the nine labels of the frozen map, and no promise
  is ever rejected with the error of \<^verbatim>\<open>StateMachine.transition\<close>.
\<close>

definition nine_ok :: "StateMachine \<Rightarrow> bool" where
  "nine_ok m = (transitions m = lifecycle_transitions \<and> current m \<in> set lifecycle_states)"

fun is_invalid :: "'e failure settlement \<Rightarrow> bool" where
  "is_invalid (Rejected (LibraryError (InvalidTransition a b))) = True"
| "is_invalid _ = False"

definition no_invalid :: "'e Lifecycle \<Rightarrow> bool" where
  "no_invalid w = list_all (\<lambda>e. \<not> is_invalid (snd e)) (settled w)"

text \<open>
  The promises a controller still holds a resolver for, by what they are: the handles of
  the queued items, the promises of the suspended \<^verbatim>\<open>#run\<close> activations, the promises
  of the user callbacks called so far, and the promises of the suspended
  \<^verbatim>\<open>until\<close> calls. The signals are the waiters of the state machine and the promises
  the \<^verbatim>\<open>until\<close> calls await. In every controller a run reaches these are allocated,
  the owned ones are pairwise different, no signal is owned, and handles, \<^verbatim>\<open>#run\<close>
  promises and \<^verbatim>\<open>until\<close> promises are pending; at most one activation of the drain
  loop exists, on the head of the queue.
\<close>

definition results :: "'e Lifecycle \<Rightarrow> nat list" where
  "results w = map (\<lambda>f. snd (snd (snd f))) (running w)"

definition callbacks :: "'e Lifecycle \<Rightarrow> nat list" where
  "callbacks w = map snd (invocations w)"

definition answers :: "'e Lifecycle \<Rightarrow> nat list" where
  "answers w = map snd (waiting w)"

definition owned :: "'e Lifecycle \<Rightarrow> nat list" where
  "owned w = map snd (items w) @ results w @ callbacks w @ answers w"

definition signals :: "'e Lifecycle \<Rightarrow> nat set" where
  "signals w = fst ` set (waiting w) \<union> ran (transitionResolvers (stateMachine w))
     \<union> ran (transitionPromises (stateMachine w))"

definition core_ok :: "'e Lifecycle \<Rightarrow> bool" where
  "core_ok w =
     (heap_ok w
      \<and> (\<forall>x \<in> set (owned w) \<union> signals w. x < fresh w)
      \<and> distinct (owned w)
      \<and> signals w \<inter> set (owned w) = {}
      \<and> (\<forall>x \<in> set (map snd (items w) @ results w @ answers w). status w x = None))"

definition unused :: "nat \<Rightarrow> 'e Lifecycle \<Rightarrow> bool" where
  "unused x w = (x < fresh w \<and> x \<notin> set (owned w) \<and> x \<notin> signals w \<and> status w x = None)"

definition shape_ok :: "'e Lifecycle \<Rightarrow> bool" where
  "shape_ok w =
     (length (draining w) \<le> 1 \<and> (processing w \<longleftrightarrow> draining w \<noteq> [])
      \<and> (items w = [] \<longleftrightarrow> draining w = [])
      \<and> list_all (\<lambda>f. snd f = hd (items w)) (draining w))"

definition lifecycle_ok :: "'e Lifecycle \<Rightarrow> bool" where
  "lifecycle_ok w = (core_ok w \<and> shape_ok w)"

text \<open>The edges of the frozen map that leave a state.\<close>

definition edges :: "string \<Rightarrow> string list" where
  "edges s = (case lifecycle_transitions s of None \<Rightarrow> [] | Some xs \<Rightarrow> xs)"

section \<open>Facts about promises\<close>

lemma status_settle:
  "status (settle p r h) q = (if q = p \<and> status h p = None then Some r else status h q)"
  by (auto simp: status_def settle_def map_of_append map_add_def split: option.splits)

lemma fresh_settle: "fresh (settle p r h) = fresh h"
  by (simp add: settle_def)

lemma heap_ok_pending: "heap_ok h \<Longrightarrow> fresh h \<le> p \<Longrightarrow> status h p = None"
proof -
  assume ok: "heap_ok h" and le: "fresh h \<le> p"
  have "p \<notin> fst ` set (settled h)"
  proof
    assume "p \<in> fst ` set (settled h)"
    then obtain e where "e \<in> set (settled h)" "fst e = p" by auto
    with ok have "p < fresh h" by (auto simp: heap_ok_def list_all_iff)
    with le show False by simp
  qed
  then show ?thesis by (simp add: status_def map_of_eq_None_iff)
qed

lemma heap_ok_settle: "heap_ok h \<Longrightarrow> p < fresh h \<Longrightarrow> heap_ok (settle p r h)"
  by (simp add: heap_ok_def settle_def)

lemma heap_ok_alloc: "heap_ok h \<Longrightarrow> heap_ok (h\<lparr>fresh := Suc (fresh h)\<rparr>)"
  by (auto simp: heap_ok_def list_all_iff less_Suc_eq)

lemma status_alloc: "status (h\<lparr>fresh := n\<rparr>) = status h"
  by (simp add: status_def fun_eq_iff)

section \<open>StateMachine: labels named like inherited members\<close>

lemmas machine_eval = until_def transition_def allows_def allows_throws_def allowed_def
  property_def Object_prototype_def method_call_throws_def new_StateMachine_def
  no_promises_def new_promise_def settle_def status_def Let_def

text \<open>
  C5 fails at a state named like an inherited member. Take the machine of
  \<^verbatim>\<open>new StateMachine({ init: ['constructor'] })\<close>. \<^verbatim>\<open>transition('constructor')\<close> is
  allowed and arrives at \<^verbatim>\<open>constructor\<close>. There \<^verbatim>\<open>allows\<close> throws, and
  \<^verbatim>\<open>transition('init')\<close>, which no edge allows, throws \<^verbatim>\<open>TypeError\<close> and not the error
  that names the current state and the target. And on the machine of
  \<^verbatim>\<open>new StateMachine({ init: ['__proto__'] })\<close>, \<^verbatim>\<open>transition('__proto__')\<close> is allowed,
  changes the current state and then throws \<^verbatim>\<open>TypeError\<close>.
\<close>

theorem transition_at_inherited_label:
  "(case machine_exec [MTransition ''constructor'']
           (new_StateMachine [''init'' \<mapsto> [''constructor'']], no_promises :: unit heap) of
      (m, h) \<Rightarrow>
        current m = ''constructor'' \<and> allows_throws m
        \<and> transition ''init'' (m, h) = (Some TypeError, m, h)
        \<and> transition ''init'' (m, h) \<noteq> (Some (InvalidTransition ''constructor'' ''init''), m, h))
   \<and> allows ''__proto__'' (new_StateMachine [''init'' \<mapsto> [''__proto__'']])
   \<and> (case transition ''__proto__''
              (new_StateMachine [''init'' \<mapsto> [''__proto__'']], no_promises :: unit heap) of
        (err, m, h) \<Rightarrow> err = Some TypeError \<and> current m = ''__proto__'')"
  by (simp add: machine_eval)

text \<open>
  C6 fails at a label named like an inherited member. On the machine of
  \<^verbatim>\<open>new StateMachine({ init: ['toString'] })\<close>, whose current state is \<^verbatim>\<open>init\<close>,
  \<^verbatim>\<open>until('toString')\<close> returns the inherited member and no promise, allocates nothing
  and leaves both tables empty; the transition that then arrives at \<^verbatim>\<open>toString\<close>
  settles no promise.
\<close>

theorem until_at_inherited_label:
  "until ''toString'' (new_StateMachine [''init'' \<mapsto> [''toString'']], no_promises :: unit heap)
     = (Member ''toString'', new_StateMachine [''init'' \<mapsto> [''toString'']], no_promises)
   \<and> (case machine_exec [MUntil ''toString'', MTransition ''toString'']
              (new_StateMachine [''init'' \<mapsto> [''toString'']], no_promises :: unit heap) of
        (m, h) \<Rightarrow> current m = ''toString'' \<and> settled h = [] \<and> fresh h = 0
          \<and> transitionPromises m = Map.empty \<and> transitionResolvers m = Map.empty)"
  by (simp add: machine_eval)

section \<open>Queue: order and failures\<close>

lemma settled_below_fresh: "heap_ok h \<Longrightarrow> x \<in> set (map fst (settled h)) \<Longrightarrow> x < fresh h"
  by (auto simp: heap_ok_def list_all_iff)

lemma heap_ok_grow:
  "heap_ok h \<Longrightarrow> settled h' = settled h \<Longrightarrow> fresh h \<le> fresh h' \<Longrightarrow> heap_ok h'"
  by (auto simp: heap_ok_def list_all_iff)

lemma filter_snoc_fresh:
  assumes "heap_ok h" "fresh h \<le> p"
  shows "filter (\<lambda>x. x = p \<or> x \<in> set hs) (map fst (settled h))
           = filter (\<lambda>x. x \<in> set hs) (map fst (settled h))"
proof (rule filter_cong [OF refl])
  fix x assume "x \<in> set (map fst (settled h))"
  then have "x < fresh h" using assms(1) by (rule settled_below_fresh [rotated])
  then show "(x = p \<or> x \<in> set hs) = (x \<in> set hs)" using assms(2) by auto
qed

lemma settled_of_alloc: "settled_of hs (h\<lparr>fresh := n\<rparr>) = settled_of hs h"
  by (simp add: settled_of_def)

lemma harness_enqueue_idle:
  "\<not> processing q \<Longrightarrow> items q = [] \<Longrightarrow>
   enqueue harness_processor x q =
     (fresh q,
      q\<lparr>fresh := Suc (Suc (fresh q)), items := [(x, fresh q)], processing := True,
        draining := draining q @ [(Suc (fresh q), x, fresh q)],
        started := started q @ [(Suc (fresh q), x)]\<rparr>)"
  by (simp add: enqueue_def processQueue_def processLoop_def harness_processor_def
      new_promise_def Let_def)

lemma harness_enqueue_busy:
  "processing q \<Longrightarrow>
   enqueue harness_processor x q =
     (fresh q, q\<lparr>fresh := Suc (fresh q), items := items q @ [(x, fresh q)]\<rparr>)"
  by (simp add: enqueue_def new_promise_def Let_def)

lemma in_flight_alloc_items [simp]:
  "in_flight (q\<lparr>fresh := n, items := xs\<rparr>) = in_flight q"
  by (simp add: in_flight_def status_def)

lemma queue_ok_enqueue:
  assumes ok: "queue_ok (q, hs)"
  shows "queue_ok (snd (enqueue harness_processor x q), hs @ [fst (enqueue harness_processor x q)])"
proof (cases "processing q")
  case True
  with ok show ?thesis
    apply (simp add: harness_enqueue_busy)
    apply (auto simp: queue_ok_def settled_of_def filter_snoc_fresh
        list_all_iff split: list.splits intro: heap_ok_grow less_SucI)
    done
next
  case False
  with ok have e: "items q = []" "draining q = []"
    by (auto simp: queue_ok_def)
  from ok False e show ?thesis
    apply (simp add: harness_enqueue_idle)
    apply (auto simp: queue_ok_def settled_of_def filter_snoc_fresh
        list_all_iff in_flight_def status_def split: list.splits intro: heap_ok_grow less_SucI)
    done
qed


lemma handle_pending:
  assumes ok: "queue_ok (q, hs)" and mem: "(x, h) \<in> set (items q)"
  shows "status q h = None"
proof -
  from ok have eq: "settled_of hs q @ map snd (items q) = hs" and d: "distinct hs"
    by (auto simp: queue_ok_def)
  from mem have hin: "h \<in> set (map snd (items q))" by force
  from d eq have "distinct (settled_of hs q @ map snd (items q))" by simp
  with hin have "h \<notin> set (settled_of hs q)" by auto
  moreover from eq hin have "h \<in> set hs"
    by (metis Un_iff set_append)
  ultimately have "h \<notin> set (map fst (settled q))" by (simp add: settled_of_def)
  then show ?thesis by (simp add: status_def map_of_eq_None_iff)
qed

lemma settle_pending: "status h p = None \<Longrightarrow> settle p r h = h\<lparr>settled := settled h @ [(p, r)]\<rparr>"
  by (simp add: settle_def)

lemma settle_settled: "status h p = Some r' \<Longrightarrow> settle p r h = h"
  by (simp add: settle_def)

lemma awaiting_single: "awaiting p [f] = (if fst f = p then Some f else None)"
  by (simp add: awaiting_def)

lemma queue_wake_last:
  assumes "draining q = [(p, x, h)]" "status q p = Some outcome" "items q = [(x', h')]"
    "status q h = None"
  shows "queue_step (QWake p) q =
           q\<lparr>settled := settled q @ [(h, outcome)], items := [], processing := False,
             draining := []\<rparr>"
  using assms
  by (simp add: awaiting_single resumeProcessQueue_def status_def settle_def processLoop_def
      Let_def)

lemma queue_wake_next:
  assumes "draining q = [(p, x, h)]" "status q p = Some outcome"
    "items q = (x', h') # (y, g) # rest" "status q h = None"
  shows "queue_step (QWake p) q =
           q\<lparr>settled := settled q @ [(h, outcome)], fresh := Suc (fresh q),
             items := (y, g) # rest, draining := [(fresh q, y, g)],
             started := started q @ [(fresh q, y)]\<rparr>"
  using assms
  by (simp add: awaiting_single resumeProcessQueue_def status_def settle_def processLoop_def
      harness_processor_def new_promise_def Let_def)


lemma queue_ok_settle:
  assumes ok: "queue_ok (q, hs)"
  shows "queue_ok (queue_step (QSettle p r) q, hs)"
proof (cases "p \<in> fst ` set (started q) \<and> status q p = None")
  case False
  then have "queue_step (QSettle p r) q = q" by (auto simp: settle_def)
  with ok show ?thesis by simp
next
  case True
  then have st: "queue_step (QSettle p r) q = q\<lparr>settled := settled q @ [(p, r)]\<rparr>"
    by (simp add: settle_def)
  from ok True have notin: "p \<notin> set hs" and lt: "p < fresh q"
    by (auto simp: queue_ok_def list_all_iff)
  have fl: "set (in_flight (q\<lparr>settled := settled q @ [(p, r)]\<rparr>)) \<subseteq> set (in_flight q)"
    by (auto simp: in_flight_def status_def map_add_def split: option.splits)
  from ok notin lt fl show ?thesis
    unfolding st
    by (auto simp: queue_ok_def heap_ok_def settled_of_def list_all_iff)
qed

lemma queue_ok_wake:
  assumes ok: "queue_ok (q, hs)"
  shows "queue_ok (queue_step (QWake p) q, hs)"
proof (cases "awaiting p (draining q)")
  case None
  with ok show ?thesis by simp
next
  case (Some f)
  then have fin: "f \<in> set (draining q)" and fp: "fst f = p"
    by (auto simp: awaiting_def find_Some_iff)
  from ok fin have dr: "draining q = [f]"
    by (cases "draining q") (auto simp: queue_ok_def)
  obtain x h where f: "f = (p, x, h)" using fp by (cases f) auto
  from ok dr f have hd: "hd (items q) = (x, h)" and ne: "items q \<noteq> []"
    by (auto simp: queue_ok_def)
  then obtain rest where it: "items q = (x, h) # rest" by (cases "items q") auto
  have pend: "status q h = None" using handle_pending [OF ok, of x h] it by simp
  show ?thesis
  proof (cases "status q p")
    case None
    then have "queue_step (QWake p) q = q"
      using dr f by (simp add: awaiting_single resumeProcessQueue_def)
    with ok show ?thesis by simp
  next
    case (Some outcome)
    have hin: "h \<in> set hs"
    proof -
      from ok have eq: "settled_of hs q @ map snd (items q) = hs" by (simp add: queue_ok_def)
      have "h \<in> set (settled_of hs q @ map snd (items q))" using it by simp
      then show ?thesis using eq by simp
    qed
    have hlt: "h < fresh q"
      using ok hin by (auto simp: queue_ok_def list_all_iff)
    have idle: "in_flight q = []"
    proof -
      from ok dr f have "\<forall>a \<in> set (in_flight q). a = p"
        by (auto simp: queue_ok_def list_all_iff)
      moreover have "p \<notin> set (in_flight q)" using Some by (simp add: in_flight_def)
      ultimately show ?thesis by (cases "in_flight q") auto
    qed
    show ?thesis
    proof (cases rest)
      case Nil
      have st: "queue_step (QWake p) q =
                  q\<lparr>settled := settled q @ [(h, outcome)], items := [], processing := False,
                    draining := []\<rparr>"
        using queue_wake_last [of q p x h outcome x h] dr f Some it Nil pend by simp
      have fl: "set (in_flight (q\<lparr>settled := settled q @ [(h, outcome)], items := [],
                  processing := False, draining := []\<rparr>)) \<subseteq> set (in_flight q)"
        by (auto simp: in_flight_def status_def map_add_def split: option.splits)
      from ok hin hlt it Nil fl idle show ?thesis
        unfolding st
        by (auto simp: queue_ok_def heap_ok_def settled_of_def list_all_iff)
    next
      case (Cons yg rest')
      obtain y g where yg: "yg = (y, g)" by (cases yg)
      have st: "queue_step (QWake p) q =
                  q\<lparr>settled := settled q @ [(h, outcome)], fresh := Suc (fresh q),
                    items := (y, g) # rest', draining := [(fresh q, y, g)],
                    started := started q @ [(fresh q, y)]\<rparr>"
        using queue_wake_next [of q p x h outcome x h y g rest'] dr f Some it Cons yg pend
        by simp
      have fl: "set (in_flight (q\<lparr>settled := settled q @ [(h, outcome)], fresh := Suc (fresh q),
                    items := (y, g) # rest', draining := [(fresh q, y, g)],
                    started := started q @ [(fresh q, y)]\<rparr>)) \<subseteq> set (in_flight q) \<union> {fresh q}"
        by (auto simp: in_flight_def status_def map_add_def split: option.splits)
      from ok hin hlt it Cons yg fl idle show ?thesis
        unfolding st
        by (auto simp: queue_ok_def heap_ok_def settled_of_def list_all_iff
            intro: less_SucI)
    qed
  qed
qed


lemma queue_ok_run: "queue_ok (q, hs) \<Longrightarrow> queue_ok (queue_run evs (q, hs))"
proof (induction evs arbitrary: q hs)
  case Nil
  then show ?case by simp
next
  case (Cons ev evs)
  show ?case
  proof (cases ev)
    case (QEnqueue x)
    then show ?thesis
      using Cons.IH [OF queue_ok_enqueue [OF Cons.prems, of x]] by simp
  next
    case (QSettle p r)
    then show ?thesis
      using Cons.IH [OF queue_ok_settle [OF Cons.prems, of p r]] by simp
  next
    case (QWake p)
    then show ?thesis
      using Cons.IH [OF queue_ok_wake [OF Cons.prems, of p]] by simp
  qed
qed

lemma queue_ok_new: "queue_ok (new_Queue, [])"
  by (simp add: queue_ok_def new_Queue_def heap_ok_def settled_of_def in_flight_def)

lemma queue_ok_reached: "queue_run evs (new_Queue, []) = (q, hs) \<Longrightarrow> queue_ok (q, hs)"
  by (metis queue_ok_run queue_ok_new)

lemma at_most_one:
  assumes "distinct xs" "\<forall>a \<in> set xs. a \<in> set ys" "length ys \<le> 1"
  shows "length xs \<le> 1"
proof -
  have "card (set xs) \<le> card (set ys)"
    using assms(2) by (intro card_mono) auto
  also have "\<dots> \<le> length ys" by (rule card_length)
  finally show ?thesis using assms(1) assms(3) by (simp add: distinct_card)
qed

lemma settled_of_snoc:
  "h \<in> set hs \<Longrightarrow>
   settled_of hs (q\<lparr>settled := settled q @ [(h, outcome)]\<rparr>) = settled_of hs q @ [h]"
  by (simp add: settled_of_def)

lemma queue_wake_head:
  assumes ok: "queue_ok (q, hs)" and frame: "(p, x, h) \<in> set (draining q)"
    and ended: "status q p = Some outcome"
  shows "status (queue_step (QWake p) q) h = Some outcome"
    and "settled_of hs (queue_step (QWake p) q) = settled_of hs q @ [h]"
    and "items (queue_step (QWake p) q) = tl (items q)"
    and "map snd (draining (queue_step (QWake p) q)) = take 1 (tl (items q))"
proof -
  from ok frame have dr: "draining q = [(p, x, h)]"
    by (cases "draining q") (auto simp: queue_ok_def)
  from ok dr have hd: "hd (items q) = (x, h)" and ne: "items q \<noteq> []"
    by (auto simp: queue_ok_def)
  then obtain rest where it: "items q = (x, h) # rest" by (cases "items q") auto
  have pend: "status q h = None" using handle_pending [OF ok, of x h] it by simp
  have hin: "h \<in> set hs"
  proof -
    from ok have eq: "settled_of hs q @ map snd (items q) = hs" by (simp add: queue_ok_def)
    have "h \<in> set (settled_of hs q @ map snd (items q))" using it by simp
    then show ?thesis using eq by simp
  qed
  have raw: "map_of (settled q) h = None" using pend by (simp add: status_def)
  have all: "status (queue_step (QWake p) q) h = Some outcome
             \<and> settled_of hs (queue_step (QWake p) q) = settled_of hs q @ [h]
             \<and> items (queue_step (QWake p) q) = tl (items q)
             \<and> map snd (draining (queue_step (QWake p) q)) = take 1 (tl (items q))"
  proof (cases rest)
    case Nil
    have st: "queue_step (QWake p) q =
                q\<lparr>settled := settled q @ [(h, outcome)], items := [], processing := False,
                  draining := []\<rparr>"
      using queue_wake_last [of q p x h outcome x h] dr ended it Nil pend by simp
    show ?thesis
      unfolding st using it Nil hin raw
      by (simp add: settled_of_def status_def map_add_def)
  next
    case (Cons yg rest')
    obtain y g where yg: "yg = (y, g)" by (cases yg)
    have st: "queue_step (QWake p) q =
                q\<lparr>settled := settled q @ [(h, outcome)], fresh := Suc (fresh q),
                  items := (y, g) # rest', draining := [(fresh q, y, g)],
                  started := started q @ [(fresh q, y)]\<rparr>"
      using queue_wake_next [of q p x h outcome x h y g rest'] dr ended it Cons yg pend
      by simp
    show ?thesis
      unfolding st using it Cons yg hin raw
      by (simp add: settled_of_def status_def map_add_def)
  qed
  from all show "status (queue_step (QWake p) q) h = Some outcome"
    and "settled_of hs (queue_step (QWake p) q) = settled_of hs q @ [h]"
    and "items (queue_step (QWake p) q) = tl (items q)"
    and "map snd (draining (queue_step (QWake p) q)) = take 1 (tl (items q))"
    by simp_all
qed

text \<open>
  C2. On every queue that a run of \<^verbatim>\<open>enqueue\<close> calls, processor settlements and
  resumptions reaches, in any order and with any delay: at most one invocation of the
  processor is pending and at most one activation of the drain loop exists; the handles
  settled so far, in the order in which they were settled, followed by the handles of the
  items still queued (all pending), are exactly the handles in the order the
  \<^verbatim>\<open>enqueue\<close> calls returned them; and once the queue is idle every handle is settled.
  As long as an item is queued, the drain loop is suspended on the head of the queue,
  awaiting a promise that the processor returned. When that promise has settled and the
  loop resumes, the handle of the head is settled with the same outcome, as the next one in
  order; the head is removed, and the loop is suspended on the item behind it, if there
  is one.
\<close>

theorem queue_in_order:
  assumes reach: "queue_run evs (new_Queue, []) = (q, hs)"
  shows "length (in_flight q) \<le> 1 \<and> length (draining q) \<le> 1
         \<and> settled_of hs q @ map snd (items q) = hs
         \<and> list_all (\<lambda>h. status q h = None) (map snd (items q))
         \<and> (if processing q then items q \<noteq> [] else settled_of hs q = hs)
         \<and> map snd (draining q) = take 1 (items q)
         \<and> (\<forall>(p, x, h) \<in> set (draining q).
              p \<in> fst ` set (started q)
              \<and> (\<forall>outcome. status q p = Some outcome \<longrightarrow>
                    (case queue_step (QWake p) q of q' \<Rightarrow>
                       status q' h = Some outcome
                       \<and> settled_of hs q' = settled_of hs q @ [h]
                       \<and> items q' = tl (items q)
                       \<and> map snd (draining q') = take 1 (tl (items q)))))"
proof -
  have ok: "queue_ok (q, hs)" using queue_ok_reached [OF reach] .
  have d: "distinct (in_flight q)"
    using ok by (simp add: queue_ok_def in_flight_def)
  have sub: "\<forall>a \<in> set (in_flight q). a \<in> set (map fst (draining q))"
    using ok by (auto simp: queue_ok_def list_all_iff)
  have one: "length (map fst (draining q)) \<le> 1" using ok by (simp add: queue_ok_def)
  have fl: "length (in_flight q) \<le> 1" using at_most_one [OF d sub one] .
  have pend: "list_all (\<lambda>h. status q h = None) (map snd (items q))"
    using handle_pending [OF ok] by (auto simp: list_all_iff)
  have ord: "settled_of hs q @ map snd (items q) = hs" using ok by (simp add: queue_ok_def)
  have idle: "if processing q then items q \<noteq> [] else settled_of hs q = hs"
    using ok by (auto simp: queue_ok_def)
  have head: "map snd (draining q) = take 1 (items q)"
  proof (cases "draining q")
    case Nil
    then show ?thesis using ok by (simp add: queue_ok_def)
  next
    case (Cons f fs)
    then have fs: "fs = []" using ok by (simp add: queue_ok_def)
    have "items q \<noteq> []" "hd (items q) = snd f" using ok Cons by (auto simp: queue_ok_def)
    then show ?thesis using Cons fs by (cases "items q") simp_all
  qed
  have wake1: "p \<in> fst ` set (started q)
              \<and> (\<forall>outcome. status q p = Some outcome \<longrightarrow>
                    (case queue_step (QWake p) q of q' \<Rightarrow>
                       status q' h = Some outcome
                       \<and> settled_of hs q' = settled_of hs q @ [h]
                       \<and> items q' = tl (items q)
                       \<and> map snd (draining q') = take 1 (tl (items q))))"
    if frame: "(p, x, h) \<in> set (draining q)" for p x h
  proof -
    have "\<forall>f \<in> set (draining q). fst f \<in> fst ` set (started q)"
      using ok by (simp add: queue_ok_def list_all_iff)
    from this [rule_format, OF frame] have a: "p \<in> fst ` set (started q)" by simp
    have b: "case queue_step (QWake p) q of q' \<Rightarrow>
            status q' h = Some outcome
            \<and> settled_of hs q' = settled_of hs q @ [h]
            \<and> items q' = tl (items q)
            \<and> map snd (draining q') = take 1 (tl (items q))"
      if ended: "status q p = Some outcome" for outcome
      using queue_wake_head [OF ok frame ended] by simp
    from a b show ?thesis by blast
  qed
  have wake: "\<forall>(p, x, h) \<in> set (draining q).
              p \<in> fst ` set (started q)
              \<and> (\<forall>outcome. status q p = Some outcome \<longrightarrow>
                    (case queue_step (QWake p) q of q' \<Rightarrow>
                       status q' h = Some outcome
                       \<and> settled_of hs q' = settled_of hs q @ [h]
                       \<and> items q' = tl (items q)
                       \<and> map snd (draining q') = take 1 (tl (items q))))"
    using wake1 by (auto simp del: queue_step.simps)
  from fl one pend ord idle head wake show ?thesis by simp
qed


lemmas queue_eval = queue_ok_def new_Queue_def enqueue_def processQueue_def processLoop_def
  harness_processor_def resumeProcessQueue_def awaiting_def new_promise_def settle_def
  status_def settled_of_def in_flight_def Let_def

theorem queue_in_order_witness:
  "case queue_run [QEnqueue (1::nat), QEnqueue 2, QEnqueue 3, QSettle 1 Fulfilled, QWake 1,
                   QSettle 4 (Rejected ''late'')] (new_Queue, []) of
     (q, hs) \<Rightarrow> hs = [0, 2, 3] \<and> settled_of hs q = [0] \<and> map snd (items q) = [2, 3]
       \<and> in_flight q = [] \<and> length (in_flight q) \<le> 1
       \<and> settled_of hs q @ map snd (items q) = hs
       \<and> (4, 2, 2) \<in> set (draining q) \<and> status q 4 = Some (Rejected ''late'')
       \<and> (case queue_step (QWake 4) q of q' \<Rightarrow>
             status q' 2 = Some (Rejected ''late'') \<and> settled_of hs q' = [0, 2]
             \<and> map snd (items q') = [3] \<and> map snd (draining q') = take 1 (tl (items q)))"
proof -
  obtain q :: "(nat, string) Harness" and hs where
    reach: "queue_run [QEnqueue (1::nat), QEnqueue 2, QEnqueue 3, QSettle 1 Fulfilled, QWake 1,
                   QSettle 4 (Rejected ''late'')] (new_Queue, []) = (q, hs)"
    by (cases "queue_run [QEnqueue (1::nat), QEnqueue 2, QEnqueue 3, QSettle 1 Fulfilled,
                   QWake 1, QSettle 4 (Rejected ''late'')]
                 (new_Queue :: (nat, string) Harness, [])")
  have facts: "hs = [0, 2, 3]" "settled_of hs q = [0]" "map snd (items q) = [2, 3]"
    "in_flight q = []" "(4, 2, 2) \<in> set (draining q)" "status q 4 = Some (Rejected ''late'')"
    using reach by (auto simp: queue_eval)
  have "case queue_step (QWake 4) q of q' \<Rightarrow>
          status q' 2 = Some (Rejected ''late'')
          \<and> settled_of hs q' = settled_of hs q @ [2]
          \<and> items q' = tl (items q)
          \<and> map snd (draining q') = take 1 (tl (items q))"
    using queue_in_order [OF reach] facts(5,6) by (auto simp del: queue_step.simps)
  then show ?thesis
    using reach facts by (simp del: queue_step.simps add: map_tl)
qed

text \<open>
  C8. On every queue a run reaches, when the processor's promise for the head item is
  rejected with \<open>e\<close> and the drain loop resumes: the head's handle, pending until then, is
  rejected with \<open>e\<close>, no other promise changes, and the head is removed. When an item is
  queued behind it, the processor is called on that item at once, and once its promise is
  fulfilled the item's handle is fulfilled. When none is, the queue is idle, and the next
  item enqueued is given to the processor and its handle is fulfilled in the same way.
\<close>

theorem queue_failure_isolated:
  assumes reach: "queue_run evs (new_Queue, []) = (q, hs)"
    and frame: "(p, x, h) \<in> set (draining q)"
    and failed: "status q p = Some (Rejected e)"
  shows "(case queue_step (QWake p) q of q1 \<Rightarrow>
            status q1 h = Some (Rejected e) \<and> status q h = None
            \<and> (\<forall>a. a \<noteq> h \<longrightarrow> status q1 a = status q a)
            \<and> items q1 = tl (items q)
            \<and> (case tl (items q) of
                  (y, g) # rest \<Rightarrow>
                    started q1 = started q @ [(fresh q, y)] \<and> status q1 (fresh q) = None
                    \<and> draining q1 = [(fresh q, y, g)]
                    \<and> (case queue_step (QWake (fresh q))
                               (queue_step (QSettle (fresh q) Fulfilled) q1) of q2 \<Rightarrow>
                          status q2 g = Some Fulfilled \<and> status q2 h = Some (Rejected e))
                | [] \<Rightarrow>
                    \<not> processing q1 \<and> draining q1 = [] \<and> started q1 = started q
                    \<and> (\<forall>y. case enqueue harness_processor y q1 of (g, q2) \<Rightarrow>
                          started q2 = started q @ [(Suc g, y)] \<and> status q2 (Suc g) = None
                          \<and> draining q2 = [(Suc g, y, g)]
                          \<and> (case queue_step (QWake (Suc g))
                                     (queue_step (QSettle (Suc g) Fulfilled) q2) of q3 \<Rightarrow>
                                status q3 g = Some Fulfilled
                                \<and> status q3 h = Some (Rejected e)))))"
proof -
  have ok: "queue_ok (q, hs)" using queue_ok_reached [OF reach] .
  from ok frame have dr: "draining q = [(p, x, h)]"
    by (cases "draining q") (auto simp: queue_ok_def)
  from ok dr have hd: "hd (items q) = (x, h)" and ne: "items q \<noteq> []"
    by (auto simp: queue_ok_def)
  then obtain rest where it: "items q = (x, h) # rest" by (cases "items q") auto
  have pend: "status q h = None" using handle_pending [OF ok, of x h] it by simp
  have hok: "heap_ok q" using ok by (simp add: queue_ok_def)
  have fr: "status q (fresh q) = None" using hok by (simp add: heap_ok_pending)
  have hlt: "h \<noteq> fresh q" "h \<noteq> Suc (fresh q)"
  proof -
    from ok have eq: "settled_of hs q @ map snd (items q) = hs"
      and lt: "\<forall>a \<in> set hs. a < fresh q"
      by (auto simp: queue_ok_def list_all_iff)
    have "h \<in> set (map snd (items q))" using it by simp
    then have "h \<in> set (settled_of hs q @ map snd (items q))" by simp
    then have "h \<in> set hs" using eq by simp
    then have "h < fresh q" using lt by auto
    then show "h \<noteq> fresh q" "h \<noteq> Suc (fresh q)" by auto
  qed
  have raw: "map_of (settled q) h = None" "map_of (settled q) (fresh q) = None"
    "map_of (settled q) (Suc (fresh q)) = None"
    using pend heap_ok_pending [OF hok, of "fresh q"] heap_ok_pending [OF hok, of "Suc (fresh q)"]
    by (simp_all add: status_def)
  show ?thesis
  proof (cases rest)
    case Nil
    have st: "queue_step (QWake p) q =
                q\<lparr>settled := settled q @ [(h, Rejected e)], items := [], processing := False,
                  draining := []\<rparr>"
      using queue_wake_last [of q p x h "Rejected e" x h] dr failed it Nil pend by simp
    have later: "status q3 g = Some Fulfilled \<and> status q3 h = Some (Rejected e)"
      if "q3 = queue_step (QWake (Suc g)) (queue_step (QSettle (Suc g) Fulfilled) q2)"
        and "q2 = q\<lparr>settled := settled q @ [(h, Rejected e)],
                    fresh := Suc (Suc (fresh q)), items := [(y, g)], processing := True,
                    draining := [(Suc g, y, g)], started := started q @ [(Suc g, y)]\<rparr>"
        and "g = fresh q"
      for q2 q3 g y
      using that raw hlt
      by (simp add: awaiting_single resumeProcessQueue_def status_def settle_def
          processLoop_def Let_def map_add_def)
    have others: "\<forall>a. a \<noteq> h \<longrightarrow> status (queue_step (QWake p) q) a = status q a"
      unfolding st by (simp add: status_def map_add_def split: option.splits)
    have mine: "status (queue_step (QWake p) q) h = Some (Rejected e)"
      unfolding st using raw by (simp add: status_def map_add_def)
    have shape: "items (queue_step (QWake p) q) = tl (items q)"
      "\<not> processing (queue_step (QWake p) q)" "draining (queue_step (QWake p) q) = []"
      "started (queue_step (QWake p) q) = started q"
      unfolding st using it Nil by simp_all
    have again: "case enqueue harness_processor y (queue_step (QWake p) q) of (g, q2) \<Rightarrow>
                   started q2 = started q @ [(Suc g, y)] \<and> status q2 (Suc g) = None
                   \<and> draining q2 = [(Suc g, y, g)]
                   \<and> (case queue_step (QWake (Suc g))
                              (queue_step (QSettle (Suc g) Fulfilled) q2) of q3 \<Rightarrow>
                         status q3 g = Some Fulfilled \<and> status q3 h = Some (Rejected e))"
      for y
      unfolding st using raw hlt later
      by (simp add: harness_enqueue_idle status_def map_add_def)
    show ?thesis
      using others mine shape again pend it Nil by simp
  next
    case (Cons yg rest')
    obtain y g where yg: "yg = (y, g)" by (cases yg)
    have st: "queue_step (QWake p) q =
                q\<lparr>settled := settled q @ [(h, Rejected e)], fresh := Suc (fresh q),
                  items := (y, g) # rest', draining := [(fresh q, y, g)],
                  started := started q @ [(fresh q, y)]\<rparr>"
      using queue_wake_next [of q p x h "Rejected e" x h y g rest'] dr failed it Cons yg pend
      by simp
    have gp: "status q g = None" using handle_pending [OF ok, of y g] it Cons yg by simp
    have gh: "g \<noteq> h"
    proof -
      from ok have "distinct (settled_of hs q @ map snd (items q))" by (simp add: queue_ok_def)
      then have "distinct (map snd (items q))" by simp
      then show ?thesis using it Cons yg by auto
    qed
    have gf: "g \<noteq> fresh q"
    proof -
      from ok have eq: "settled_of hs q @ map snd (items q) = hs"
        and lt: "\<forall>a \<in> set hs. a < fresh q"
        by (auto simp: queue_ok_def list_all_iff)
      have "g \<in> set (map snd (items q))" using it Cons yg by simp
      then have "g \<in> set (settled_of hs q @ map snd (items q))" by simp
      then have "g \<in> set hs" using eq by simp
      then show ?thesis using lt by auto
    qed
    have rawg: "map_of (settled q) g = None" using gp by (simp add: status_def)
    have others: "\<forall>a. a \<noteq> h \<longrightarrow> status (queue_step (QWake p) q) a = status q a"
      unfolding st by (simp add: status_def map_add_def split: option.splits)
    have mine: "status (queue_step (QWake p) q) h = Some (Rejected e)"
      unfolding st using raw by (simp add: status_def map_add_def)
    have shape: "items (queue_step (QWake p) q) = tl (items q)"
      "started (queue_step (QWake p) q) = started q @ [(fresh q, y)]"
      "status (queue_step (QWake p) q) (fresh q) = None"
      "draining (queue_step (QWake p) q) = [(fresh q, y, g)]"
      unfolding st using it Cons yg raw hlt by (simp_all add: status_def map_add_def)
    have again: "case queue_step (QWake (fresh q))
                        (queue_step (QSettle (fresh q) Fulfilled) (queue_step (QWake p) q)) of
                   q2 \<Rightarrow> status q2 g = Some Fulfilled \<and> status q2 h = Some (Rejected e)"
      unfolding st using raw rawg hlt gh gf
      by (cases rest')
        (simp_all add: awaiting_single resumeProcessQueue_def status_def settle_def
          processLoop_def harness_processor_def new_promise_def Let_def map_add_def
          split: prod.splits)
    show ?thesis
      using others mine shape again pend it Cons yg by simp
  qed
qed

theorem queue_failure_isolated_witness:
  "case queue_run [QEnqueue (1::nat), QEnqueue 2, QSettle 1 (Rejected ''test error'')]
          (new_Queue, []) of
     (q, hs) \<Rightarrow> (1, 1, 0) \<in> set (draining q) \<and> status q 1 = Some (Rejected ''test error'')
       \<and> (case queue_step (QWake 1) q of q1 \<Rightarrow>
             status q1 0 = Some (Rejected ''test error'') \<and> status q1 2 = None
             \<and> (case queue_step (QWake 3) (queue_step (QSettle 3 Fulfilled) q1) of q2 \<Rightarrow>
                   status q2 2 = Some Fulfilled \<and> status q2 0 = Some (Rejected ''test error'')))"
proof -
  obtain q :: "(nat, string) Harness" and hs where
    reach: "queue_run [QEnqueue (1::nat), QEnqueue 2, QSettle 1 (Rejected ''test error'')]
              (new_Queue, []) = (q, hs)"
    by (cases "queue_run [QEnqueue (1::nat), QEnqueue 2, QSettle 1 (Rejected ''test error'')]
                 (new_Queue :: (nat, string) Harness, [])")
  have frame: "(1, 1, 0) \<in> set (draining q)"
    and failed: "status q 1 = Some (Rejected ''test error'')"
    and rest: "tl (items q) = [(2, 2)]" and fr: "fresh q = 3" and two: "status q 2 = None"
    using reach by (auto simp: queue_eval)
  show ?thesis
    using queue_failure_isolated [OF reach frame failed] reach frame failed rest fr two
    by (simp del: queue_step.simps)
qed

section \<open>Lifecycle: the state stays in the graph\<close>

lemma settle_fields [simp]:
  "items (settle x s w) = items w" "processing (settle x s w) = processing w"
  "draining (settle x s w) = draining w"
  by (simp_all add: settle_def)

lemma settle_lifecycle_fields [simp]:
  "stateMachine (settle x s w) = stateMachine w" "operations (settle x s w) = operations w"
  "onTransition (settle x s w) = onTransition w" "running (settle x s w) = running w"
  "waiting (settle x s w) = waiting w" "invocations (settle x s w) = invocations w"
  "notifications (settle x s w) = notifications w"
  by (simp_all add: settle_def)

lemma nine_label_own: "t \<in> set lifecycle_states \<Longrightarrow> t \<notin> set Object_prototype"
  by (auto simp: lifecycle_states_def Object_prototype_def)

lemma nine_allowed: "nine_ok m \<Longrightarrow> allowed m = Some (edges (current m))"
  by (auto simp: nine_ok_def allowed_def property_def edges_def lifecycle_transitions_def
      lifecycle_states_def)

lemma nine_not_throws: "nine_ok m \<Longrightarrow> \<not> allows_throws m"
  by (simp add: allows_throws_def nine_allowed)

lemma allows_edges: "nine_ok m \<Longrightarrow> allows t m = (t \<in> set (edges (current m)))"
  by (simp add: allows_def nine_allowed)

lemma allows_nine:
  "nine_ok m \<Longrightarrow> allows t m \<Longrightarrow> t \<in> set lifecycle_states"
  by (auto simp: allows_edges nine_ok_def edges_def lifecycle_transitions_def
      lifecycle_states_def split: if_splits)

lemma machine_transition_eq:
  "machine_transition t w =
     (if allows_throws (stateMachine w) then (Some TypeError, w)
      else if \<not> allows t (stateMachine w) then
        (Some (InvalidTransition (current (stateMachine w)) t), w)
      else case property (transitionResolvers (stateMachine w)) t of
             Own p \<Rightarrow>
               (None,
                (settle p Fulfilled w)\<lparr>stateMachine := (stateMachine w)
                   \<lparr>current := t, transitionResolvers := (transitionResolvers (stateMachine w))(t := None),
                     transitionPromises := (transitionPromises (stateMachine w))(t := None)\<rparr>\<rparr>)
           | Inherited \<Rightarrow>
               if method_call_throws t then
                 (Some TypeError, w\<lparr>stateMachine := (stateMachine w)\<lparr>current := t\<rparr>\<rparr>)
               else
                 (None,
                  w\<lparr>stateMachine := (stateMachine w)
                     \<lparr>current := t, transitionResolvers := (transitionResolvers (stateMachine w))(t := None),
                       transitionPromises := (transitionPromises (stateMachine w))(t := None)\<rparr>\<rparr>)
           | Absent \<Rightarrow> (None, w\<lparr>stateMachine := (stateMachine w)\<lparr>current := t\<rparr>\<rparr>))"
  by (simp add: machine_transition_def transition_def Let_def settle_def property_def
      split: option.splits)

lemma machine_transition_allowed:
  "nine_ok (stateMachine w) \<Longrightarrow> allows t (stateMachine w) \<Longrightarrow>
   fst (machine_transition t w) = None"
  using allows_nine [of "stateMachine w" t] nine_label_own [of t]
  by (simp add: machine_transition_eq nine_not_throws property_def split: option.splits)

lemma machine_transition_thrown:
  "\<not> allows_throws (stateMachine w) \<Longrightarrow> allows t (stateMachine w) \<Longrightarrow>
   fst (machine_transition t w) = Some e \<Longrightarrow> e = TypeError"
  by (auto simp: machine_transition_eq split: property.splits if_splits)

lemma nine_machine_transition:
  "nine_ok (stateMachine w) \<Longrightarrow> nine_ok (stateMachine (snd (machine_transition t w)))"
  using allows_nine [of "stateMachine w" t]
  by (auto simp: machine_transition_eq nine_ok_def split: property.splits)

lemma notify_simps [simp]:
  "fst (notify s w) = onTransition w s"
  "snd (notify s w) = w\<lparr>notifications := notifications w @ [s]\<rparr>"
  by (simp_all add: notify_def)

lemma invoke_eq:
  "invoke f w =
     (fresh w,
      case f of
        noop \<Rightarrow> settle (fresh w) Fulfilled (w\<lparr>fresh := Suc (fresh w)\<rparr>)
      | Callback name \<Rightarrow>
          w\<lparr>fresh := Suc (fresh w), invocations := invocations w @ [(name, fresh w)]\<rparr>
      | Builtin name \<Rightarrow>
          settle (fresh w)
            (if plain_call_throws name then Rejected (LibraryError TypeError) else Fulfilled)
            (w\<lparr>fresh := Suc (fresh w)\<rparr>))"
  by (simp add: invoke_def new_promise_def split: operation.splits)

lemma nine_invoke [simp]: "stateMachine (snd (invoke f w)) = stateMachine w"
  by (simp add: invoke_eq split: operation.splits)

lemma run_eq:
  "run d w =
     (fresh w,
      let w1 = w\<lparr>fresh := Suc (fresh w)\<rparr>;
          mt = machine_transition (interimState d) w1;
          nt = notify (interimState d) (snd mt);
          iv = invoke (operation d) (snd nt)
      in if allows_throws (stateMachine w) then
           settle (fresh w) (Rejected (LibraryError TypeError)) w1
         else if \<not> allows (interimState d) (stateMachine w) then settle (fresh w) Fulfilled w1
         else
           (case fst mt of
              Some e \<Rightarrow> settle (fresh w) (Rejected (LibraryError e)) (snd mt)
            | None \<Rightarrow>
                (case fst nt of
                   Some x \<Rightarrow> settle (fresh w) (Rejected (ObserverFailure x)) (snd nt)
                 | None \<Rightarrow>
                     (snd iv)\<lparr>running := running (snd iv)
                        @ [(fst iv, interimState d, toState d, fresh w)]\<rparr>)))"
proof -
  obtain e w2 where
    mt: "machine_transition (interimState d) (w\<lparr>fresh := Suc (fresh w)\<rparr>) = (e, w2)"
    by (cases "machine_transition (interimState d) (w\<lparr>fresh := Suc (fresh w)\<rparr>)")
  obtain p w4 where
    iv: "invoke (operation d) (w2\<lparr>notifications := notifications w2 @ [interimState d]\<rparr>)
           = (p, w4)"
    by (cases "invoke (operation d)
                 (w2\<lparr>notifications := notifications w2 @ [interimState d]\<rparr>)")
  show ?thesis
    using mt iv
    by (simp add: run_def notify_def new_promise_def Let_def split: option.splits)
qed

lemma nine_run: "nine_ok (stateMachine w) \<Longrightarrow> nine_ok (stateMachine (snd (run d w)))"
  using nine_machine_transition [of "w\<lparr>fresh := Suc (fresh w)\<rparr>" "interimState d"]
  by (simp add: run_eq Let_def split: option.splits)

lemma resumeRun_eq:
  "resumeRun (p, i, t, r) w =
     (case status w p of
        None \<Rightarrow> w
      | Some (Rejected e) \<Rightarrow>
          settle r (Rejected e) (w\<lparr>running := remove1 (p, i, t, r) (running w)\<rparr>)
      | Some Fulfilled \<Rightarrow>
          (let w1 = w\<lparr>running := remove1 (p, i, t, r) (running w)\<rparr>;
               mt = machine_transition t w1;
               nt = notify t (snd mt)
           in if current (stateMachine w) \<noteq> i then settle r Fulfilled w1
              else if allows_throws (stateMachine w) then
                settle r (Rejected (LibraryError TypeError)) w1
              else if \<not> allows t (stateMachine w) then settle r Fulfilled w1
              else
                (case fst mt of
                   Some e \<Rightarrow> settle r (Rejected (LibraryError e)) (snd mt)
                 | None \<Rightarrow>
                     settle r (case fst nt of
                                 Some x \<Rightarrow> Rejected (ObserverFailure x)
                               | None \<Rightarrow> Fulfilled) (snd nt))))"
proof -
  obtain e w2 where
    mt: "machine_transition t (w\<lparr>running := remove1 (p, i, t, r) (running w)\<rparr>) = (e, w2)"
    by (cases "machine_transition t (w\<lparr>running := remove1 (p, i, t, r) (running w)\<rparr>)")
  show ?thesis
    using mt
    by (simp add: resumeRun_def notify_def Let_def split: option.splits settlement.splits)
qed

lemma nine_resumeRun: "nine_ok (stateMachine w) \<Longrightarrow> nine_ok (stateMachine (resumeRun f w))"
proof -
  assume ok: "nine_ok (stateMachine w)"
  obtain p i t r where f: "f = (p, i, t, r)" by (cases f)
  show ?thesis
    using ok nine_machine_transition [of "w\<lparr>running := remove1 f (running w)\<rparr>" t]
    unfolding f
    by (simp add: resumeRun_eq Let_def split: option.splits settlement.splits)
qed

lemma processLoop_run:
  "processLoop run w =
     (case items w of
        [] \<Rightarrow> w\<lparr>processing := False\<rparr>
      | ih # _ \<Rightarrow>
          (snd (run (fst ih) w))\<lparr>draining := draining (snd (run (fst ih) w))
             @ [(fst (run (fst ih) w), fst ih, snd ih)]\<rparr>)"
  by (simp add: processLoop_def Let_def split: list.splits prod.splits)

lemma enqueue_run:
  "enqueue run d w =
     (fresh w,
      if processing w then w\<lparr>fresh := Suc (fresh w), items := items w @ [(d, fresh w)]\<rparr>
      else processLoop run
             (w\<lparr>fresh := Suc (fresh w), items := items w @ [(d, fresh w)], processing := True\<rparr>))"
  by (simp add: enqueue_def processQueue_def new_promise_def Let_def)

lemma resumeProcessQueue_run:
  "resumeProcessQueue run (p, d, h) w =
     (case status w p of
        None \<Rightarrow> w
      | Some outcome \<Rightarrow>
          processLoop run
            ((settle h outcome (w\<lparr>draining := remove1 (p, d, h) (draining w)\<rparr>))
               \<lparr>items := tl (items w)\<rparr>))"
  by (simp add: resumeProcessQueue_def Let_def split: option.splits)

lemma nine_processLoop:
  "nine_ok (stateMachine w) \<Longrightarrow> nine_ok (stateMachine (processLoop run w))"
  by (cases "items w") (simp_all add: processLoop_run nine_run)

lemma nine_enqueue:
  "nine_ok (stateMachine w) \<Longrightarrow> nine_ok (stateMachine (snd (enqueue run d w)))"
  using nine_processLoop [of "w\<lparr>fresh := Suc (fresh w), items := items w @ [(d, fresh w)],
      processing := True\<rparr>"]
  by (simp add: enqueue_run)

lemma nine_resumeProcessQueue:
  "nine_ok (stateMachine w) \<Longrightarrow> nine_ok (stateMachine (resumeProcessQueue run f w))"
proof -
  assume ok: "nine_ok (stateMachine w)"
  obtain p d h where f: "f = (p, d, h)" by (cases f)
  show ?thesis
  proof (cases "status w p")
    case None
    then show ?thesis using ok by (simp add: resumeProcessQueue_run f)
  next
    case (Some outcome)
    have "nine_ok (stateMachine (processLoop run
            ((settle h outcome (w\<lparr>draining := remove1 f (draining w)\<rparr>))
               \<lparr>items := tl (items w)\<rparr>)))"
      using ok by (intro nine_processLoop) simp
    then show ?thesis using Some by (simp add: resumeProcessQueue_run f)
  qed
qed

lemma lifecycle_until_eq:
  "lifecycle_until s w =
     (fresh w,
      if current (stateMachine w) = s
         \<or> property (transitionPromises (stateMachine w)) s = Inherited then
        (settle (Suc (fresh w)) Fulfilled (w\<lparr>fresh := Suc (Suc (fresh w))\<rparr>))
          \<lparr>waiting := waiting w @ [(Suc (fresh w), fresh w)]\<rparr>
      else
        (case transitionPromises (stateMachine w) s of
           Some p \<Rightarrow> w\<lparr>fresh := Suc (fresh w), waiting := waiting w @ [(p, fresh w)]\<rparr>
         | None \<Rightarrow>
             w\<lparr>fresh := Suc (Suc (fresh w)),
               stateMachine := (stateMachine w)
                 \<lparr>transitionResolvers := (transitionResolvers (stateMachine w))(s \<mapsto> Suc (fresh w)),
                   transitionPromises := (transitionPromises (stateMachine w))(s \<mapsto> Suc (fresh w))\<rparr>,
               waiting := waiting w @ [(Suc (fresh w), fresh w)]\<rparr>))"
  by (simp add: lifecycle_until_def until_def new_promise_def Let_def settle_def status_def
      property_def split: option.splits)

lemma nine_until:
  "nine_ok (stateMachine w) \<Longrightarrow> nine_ok (stateMachine (snd (lifecycle_until s w)))"
  by (simp add: lifecycle_until_eq nine_ok_def split: option.splits)

lemma resumeUntil_eq:
  "resumeUntil (p, u) w =
     (case status w p of
        None \<Rightarrow> w
      | Some outcome \<Rightarrow> settle u outcome (w\<lparr>waiting := remove1 (p, u) (waiting w)\<rparr>))"
  by (simp add: resumeUntil_def split: option.splits settlement.splits)

lemma nine_resumeUntil:
  "nine_ok (stateMachine w) \<Longrightarrow> nine_ok (stateMachine (resumeUntil f w))"
  by (cases f) (simp add: resumeUntil_eq split: option.splits)

lemma nine_new: "nine_ok (new_StateMachine lifecycle_transitions)"
  by (simp add: nine_ok_def new_StateMachine_def lifecycle_states_def)

lemma perform_world:
  "snd (perform c w) =
     (case c of
        Open \<Rightarrow> snd (enqueue run \<lparr>operation = the_operation ''open'' w,
                   interimState = ''opening'', toState = ''opened''\<rparr> w)
      | Close \<Rightarrow> snd (enqueue run \<lparr>operation = the_operation ''close'' w,
                   interimState = ''closing'', toState = ''closed''\<rparr> w)
      | Suspend \<Rightarrow> snd (enqueue run \<lparr>operation = the_operation ''suspend'' w,
                   interimState = ''suspending'', toState = ''suspended''\<rparr> w)
      | Resume \<Rightarrow> snd (enqueue run \<lparr>operation = the_operation ''resume'' w,
                   interimState = ''resuming'', toState = ''resumed''\<rparr> w)
      | Transition name i t \<Rightarrow>
          (case property (operations w) name of
             Absent \<Rightarrow> settle (fresh w) (Rejected (LibraryError (UnknownOperator name)))
                       (w\<lparr>fresh := Suc (fresh w)\<rparr>)
           | Own f \<Rightarrow> snd (enqueue run \<lparr>operation = f, interimState = i, toState = t\<rparr> w)
           | Inherited \<Rightarrow>
               snd (enqueue run \<lparr>operation = Builtin name, interimState = i, toState = t\<rparr> w))
      | Until s \<Rightarrow> snd (lifecycle_until s w)
      | On k \<Rightarrow> w\<lparr>onTransition := k\<rparr>
      | Reset \<Rightarrow> w\<lparr>stateMachine := new_StateMachine lifecycle_transitions\<rparr>)"
  by (cases c)
    (simp_all add: lifecycle_open_def lifecycle_close_def lifecycle_suspend_def
      lifecycle_resume_def lifecycle_transition_def lifecycle_enqueue_def lifecycle_on_def
      reset_def new_promise_def Let_def split: prod.splits property.splits)

lemma nine_perform:
  "nine_ok (stateMachine w) \<Longrightarrow> nine_ok (stateMachine (snd (perform c w)))"
  unfolding perform_world
  by (cases c) (simp_all add: nine_enqueue nine_until nine_new split: property.splits)

lemma nine_step: "nine_ok (stateMachine w) \<Longrightarrow> nine_ok (stateMachine (step ev w))"
  by (cases ev)
    (auto simp: nine_perform nine_resumeRun nine_resumeProcessQueue nine_resumeUntil
      split: option.splits)

lemma nine_exec: "nine_ok (stateMachine w) \<Longrightarrow> nine_ok (stateMachine (exec evs w))"
  by (induction evs arbitrary: w) (simp_all add: nine_step)

text \<open>
  C9. After any run of events of a controller (calls of \<^verbatim>\<open>open\<close>, \<^verbatim>\<open>close\<close>,
  \<^verbatim>\<open>suspend\<close>, \<^verbatim>\<open>resume\<close>, \<^verbatim>\<open>reset\<close>, \<^verbatim>\<open>until\<close>, \<^verbatim>\<open>on\<close> and
  \<^verbatim>\<open>transition\<close> with any operator name, found among the four operations, inherited or
  not found at all, and any two labels; callbacks settling, observers throwing,
  activations resuming, in any order), the current state is one of the nine labels.
\<close>

theorem state_among_nine:
  "current (stateMachine (exec evs (new_Lifecycle supplied)))
     \<in> {''init'', ''opening'', ''opened'', ''suspending'', ''suspended'', ''resuming'',
         ''resumed'', ''closing'', ''closed''}"
proof -
  have "nine_ok (stateMachine (new_Lifecycle supplied))"
    by (simp add: new_Lifecycle_def nine_new)
  then have "nine_ok (stateMachine (exec evs (new_Lifecycle supplied)))"
    by (rule nine_exec)
  then show ?thesis by (simp add: nine_ok_def lifecycle_states_def)
qed

section \<open>Lifecycle: no rejection with the state machine's error\<close>

lemma no_invalid_updates [simp]:
  "no_invalid (w\<lparr>fresh := n\<rparr>) = no_invalid w"
  "no_invalid (w\<lparr>items := xs\<rparr>) = no_invalid w"
  "no_invalid (w\<lparr>processing := b\<rparr>) = no_invalid w"
  "no_invalid (w\<lparr>draining := fs\<rparr>) = no_invalid w"
  "no_invalid (w\<lparr>stateMachine := m\<rparr>) = no_invalid w"
  "no_invalid (w\<lparr>onTransition := k\<rparr>) = no_invalid w"
  "no_invalid (w\<lparr>running := rs\<rparr>) = no_invalid w"
  "no_invalid (w\<lparr>waiting := ws\<rparr>) = no_invalid w"
  "no_invalid (w\<lparr>invocations := cs\<rparr>) = no_invalid w"
  "no_invalid (w\<lparr>notifications := ns\<rparr>) = no_invalid w"
  by (simp_all add: no_invalid_def)

lemma no_invalid_settle:
  "no_invalid w \<Longrightarrow> \<not> is_invalid s \<Longrightarrow> no_invalid (settle x s w)"
  by (simp add: no_invalid_def settle_def)

lemma no_invalid_status:
  "no_invalid w \<Longrightarrow> status w p = Some s \<Longrightarrow> \<not> is_invalid s"
  by (auto simp: no_invalid_def status_def list_all_iff dest!: map_of_SomeD)

lemma no_invalid_machine_transition:
  "no_invalid w \<Longrightarrow> no_invalid (snd (machine_transition t w))"
  by (simp add: machine_transition_eq no_invalid_settle split: property.splits)

lemma no_invalid_invoke: "no_invalid w \<Longrightarrow> no_invalid (snd (invoke f w))"
  by (cases f) (simp_all add: invoke_eq no_invalid_settle)

lemma no_invalid_run: "no_invalid w \<Longrightarrow> no_invalid (snd (run d w))"
proof -
  assume ok: "no_invalid w"
  let ?w1 = "w\<lparr>fresh := Suc (fresh w)\<rparr>"
  let ?mt = "machine_transition (interimState d) ?w1"
  let ?w3 = "(snd ?mt)\<lparr>notifications := notifications (snd ?mt) @ [interimState d]\<rparr>"
  have ok1: "no_invalid ?w1" using ok by simp
  have ok2: "no_invalid (snd ?mt)" using ok1 by (rule no_invalid_machine_transition)
  have ok3: "no_invalid ?w3" using ok2 by simp
  have ok4: "no_invalid (snd (invoke (operation d) ?w3))" using ok3 by (rule no_invalid_invoke)
  have thrown: "e = TypeError"
    if "\<not> allows_throws (stateMachine w)" "allows (interimState d) (stateMachine w)"
      "fst ?mt = Some e" for e
    using machine_transition_thrown [of ?w1 "interimState d" e] that by simp
  show ?thesis
    using ok1 ok2 ok3 ok4 thrown
    by (auto simp: run_eq Let_def no_invalid_settle split: option.splits)
qed

lemma no_invalid_resumeRun: "no_invalid w \<Longrightarrow> no_invalid (resumeRun f w)"
proof -
  assume ok: "no_invalid w"
  obtain p i t r where f: "f = (p, i, t, r)" by (cases f)
  let ?w1 = "w\<lparr>running := remove1 f (running w)\<rparr>"
  let ?mt = "machine_transition t ?w1"
  let ?w3 = "(snd ?mt)\<lparr>notifications := notifications (snd ?mt) @ [t]\<rparr>"
  have ok1: "no_invalid ?w1" using ok by simp
  have ok2: "no_invalid (snd ?mt)" using ok1 by (rule no_invalid_machine_transition)
  have ok3: "no_invalid ?w3" using ok2 by simp
  have thrown: "e = TypeError"
    if "\<not> allows_throws (stateMachine w)" "allows t (stateMachine w)" "fst ?mt = Some e" for e
    using machine_transition_thrown [of ?w1 t e] that by simp
  have rej: "\<not> is_invalid (Rejected e)" if "status w p = Some (Rejected e)" for e
    using no_invalid_status [OF ok that] .
  show ?thesis
    using ok ok1 ok2 ok3 thrown rej unfolding f
    by (auto simp: resumeRun_eq Let_def no_invalid_settle
        split: option.splits settlement.splits)
qed

lemma no_invalid_processLoop: "no_invalid w \<Longrightarrow> no_invalid (processLoop run w)"
  by (cases "items w") (simp_all add: processLoop_run no_invalid_run)

lemma no_invalid_enqueue: "no_invalid w \<Longrightarrow> no_invalid (snd (enqueue run d w))"
proof -
  assume ok: "no_invalid w"
  have "no_invalid (processLoop run
          (w\<lparr>fresh := Suc (fresh w), items := items w @ [(d, fresh w)], processing := True\<rparr>))"
    using ok by (intro no_invalid_processLoop) simp
  then show ?thesis using ok by (simp add: enqueue_run)
qed

lemma no_invalid_resumeProcessQueue:
  "no_invalid w \<Longrightarrow> no_invalid (resumeProcessQueue run f w)"
proof -
  assume ok: "no_invalid w"
  obtain p d h where f: "f = (p, d, h)" by (cases f)
  show ?thesis
  proof (cases "status w p")
    case None
    then show ?thesis using ok by (simp add: resumeProcessQueue_run f)
  next
    case (Some outcome)
    have ni: "\<not> is_invalid outcome" using no_invalid_status [OF ok Some] .
    have "no_invalid (settle h outcome (w\<lparr>draining := remove1 f (draining w)\<rparr>))"
      using ok ni by (intro no_invalid_settle) simp_all
    then have "no_invalid (processLoop run
            ((settle h outcome (w\<lparr>draining := remove1 f (draining w)\<rparr>))
               \<lparr>items := tl (items w)\<rparr>))"
      by (intro no_invalid_processLoop) simp
    then show ?thesis using Some by (simp add: resumeProcessQueue_run f)
  qed
qed

lemma no_invalid_until: "no_invalid w \<Longrightarrow> no_invalid (snd (lifecycle_until s w))"
  by (simp add: lifecycle_until_eq no_invalid_settle split: option.splits)

lemma no_invalid_resumeUntil: "no_invalid w \<Longrightarrow> no_invalid (resumeUntil f w)"
proof -
  assume ok: "no_invalid w"
  obtain p u where f: "f = (p, u)" by (cases f)
  show ?thesis
  proof (cases "status w p")
    case None
    then show ?thesis using ok by (simp add: resumeUntil_eq f)
  next
    case (Some outcome)
    have ni: "\<not> is_invalid outcome" using no_invalid_status [OF ok Some] .
    show ?thesis
      using Some ni ok by (simp add: resumeUntil_eq f no_invalid_settle)
  qed
qed

lemma no_invalid_perform: "no_invalid w \<Longrightarrow> no_invalid (snd (perform c w))"
  unfolding perform_world
  by (cases c)
    (simp_all add: no_invalid_enqueue no_invalid_until no_invalid_settle
      split: property.splits)

lemma no_invalid_step: "no_invalid w \<Longrightarrow> no_invalid (step ev w)"
proof (cases ev)
  case (Call c)
  assume "no_invalid w"
  then show ?thesis using Call by (simp add: no_invalid_perform)
next
  case (Settle p outcome)
  assume "no_invalid w"
  then show ?thesis using Settle by (cases outcome) (simp_all add: no_invalid_settle)
next
  case (Wake p)
  assume "no_invalid w"
  then show ?thesis using Wake
    by (simp add: no_invalid_resumeRun no_invalid_resumeProcessQueue no_invalid_resumeUntil
        split: option.splits)
qed

lemma no_invalid_exec: "no_invalid w \<Longrightarrow> no_invalid (exec evs w)"
  by (induction evs arbitrary: w) (simp_all add: no_invalid_step)

lemma no_invalid_new: "no_invalid (new_Lifecycle supplied)"
  by (simp add: no_invalid_def new_Lifecycle_def)

section \<open>Lifecycle: scenarios\<close>

lemmas lifecycle_eval = new_Lifecycle_def new_StateMachine_def lifecycle_transitions_def
  lifecycle_open_def lifecycle_close_def lifecycle_suspend_def lifecycle_resume_def
  lifecycle_transition_def lifecycle_enqueue_def lifecycle_until_def lifecycle_on_def
  reset_def the_operation_def enqueue_def processQueue_def processLoop_def
  resumeProcessQueue_def run_def resumeRun_def resumeUntil_def invoke_def notify_def
  machine_transition_def transition_def until_def allows_def allows_throws_def allowed_def
  property_def Object_prototype_def method_call_throws_def plain_call_throws_def
  awaiting_def new_promise_def settle_def status_def Let_def

theorem state_among_nine_witness:
  "current (stateMachine
      (exec [Call (Transition ''constructor'' ''opening'' ''opened''), Wake 2,
             Call (Transition ''close'' ''closed'' ''init'')]
         (new_Lifecycle [''open''] :: string Lifecycle))) = ''opened''
   \<and> current (stateMachine
      (exec [Call (Transition ''constructor'' ''opening'' ''opened''), Wake 2,
             Call (Transition ''close'' ''closed'' ''init'')]
         (new_Lifecycle [''open''] :: string Lifecycle)))
     \<in> {''init'', ''opening'', ''opened'', ''suspending'', ''suspended'', ''resuming'',
         ''resumed'', ''closing'', ''closed''}"
  using state_among_nine
    [of "[Call (Transition ''constructor'' ''opening'' ''opened''), Wake 2,
          Call (Transition ''close'' ''closed'' ''init'')]" "[''open'']"]
  by (simp add: lifecycle_eval)

text \<open>
  C3. A new controller with an \<^verbatim>\<open>open\<close> callback that throws \<open>e\<close>:
  \<^verbatim>\<open>open()\<close> is rejected with \<open>e\<close> and the state stays \<^verbatim>\<open>opening\<close>, the callback
  called once; a second \<^verbatim>\<open>open()\<close> is fulfilled without another call of the callback,
  the state still \<^verbatim>\<open>opening\<close>; \<^verbatim>\<open>reset()\<close> puts the state back to \<^verbatim>\<open>init\<close>, and a
  further \<^verbatim>\<open>open()\<close> calls the callback again.
\<close>

theorem open_failure_scenario:
  assumes "''open'' \<in> set supplied"
  shows "(case exec [Call Open, Settle 2 (Rejected e), Wake 2, Wake 1] (new_Lifecycle supplied) of
            w1 \<Rightarrow>
              status w1 0 = Some (Rejected (OperationFailure e))
              \<and> current (stateMachine w1) = ''opening''
              \<and> invocations w1 = [(''open'', 2)]
              \<and> (case perform Open w1 of (h, w2) \<Rightarrow>
                    h = Some 3
                    \<and> (case exec [Wake 4] w2 of w3 \<Rightarrow>
                          status w3 3 = Some Fulfilled
                          \<and> current (stateMachine w3) = ''opening''
                          \<and> invocations w3 = [(''open'', 2)]
                          \<and> (case step (Call Reset) w3 of w4 \<Rightarrow>
                                current (stateMachine w4) = ''init''
                                \<and> (case step (Call Open) w4 of w5 \<Rightarrow>
                                      invocations w5 = [(''open'', 2), (''open'', 7)]
                                      \<and> current (stateMachine w5) = ''opening'')))))"
  using assms by (simp add: lifecycle_eval)

theorem open_failure_scenario_witness:
  "(case exec [Call Open, Settle 2 (Rejected ''boom''), Wake 2, Wake 1]
           (new_Lifecycle [''open'']) of
      w1 \<Rightarrow>
        status w1 0 = Some (Rejected (OperationFailure ''boom''))
        \<and> current (stateMachine w1) = ''opening''
        \<and> invocations w1 = [(''open'', 2)]
        \<and> (case perform Open w1 of (h, w2) \<Rightarrow>
              h = Some 3
              \<and> (case exec [Wake 4] w2 of w3 \<Rightarrow>
                    status w3 3 = Some Fulfilled
                    \<and> current (stateMachine w3) = ''opening''
                    \<and> invocations w3 = [(''open'', 2)]
                    \<and> (case step (Call Reset) w3 of w4 \<Rightarrow>
                          current (stateMachine w4) = ''init''
                          \<and> (case step (Call Open) w4 of w5 \<Rightarrow>
                                invocations w5 = [(''open'', 2), (''open'', 7)]
                                \<and> current (stateMachine w5) = ''opening'')))))"
  by (rule open_failure_scenario) simp

section \<open>Lifecycle: who settles which promise\<close>

lemma core_ok_alloc:
  "core_ok w \<Longrightarrow> core_ok (w\<lparr>fresh := Suc (fresh w)\<rparr>) \<and> unused (fresh w) (w\<lparr>fresh := Suc (fresh w)\<rparr>)"
  apply (rule conjI)
   apply (auto simp: core_ok_def owned_def results_def callbacks_def answers_def signals_def
      heap_ok_def list_all_iff status_def less_Suc_eq)[1]
  apply (auto simp: unused_def core_ok_def heap_ok_pending status_alloc)
  apply (auto simp: owned_def results_def callbacks_def answers_def signals_def)
  done

lemmas core_defs = owned_def results_def callbacks_def answers_def signals_def

lemma owned_settle [simp]: "owned (settle x s w) = owned w"
  by (simp add: core_defs)

lemma signals_settle [simp]: "signals (settle x s w) = signals w"
  by (simp add: core_defs)

lemma core_ok_settle:
  "core_ok w \<Longrightarrow> x < fresh w \<Longrightarrow> x \<notin> set (map snd (items w) @ results w @ answers w) \<Longrightarrow>
   core_ok (settle x s w)"
  by (auto simp: core_ok_def heap_ok_settle fresh_settle status_settle results_def answers_def)

lemma unused_settle: "unused y w \<Longrightarrow> x \<noteq> y \<Longrightarrow> unused y (settle x s w)"
  by (simp add: unused_def fresh_settle status_settle)

lemma unused_not_owned:
  "unused x w \<Longrightarrow> x \<notin> set (map snd (items w) @ results w @ answers w)"
  by (auto simp: unused_def owned_def)

lemma signal_not_owned:
  "core_ok w \<Longrightarrow> x \<in> signals w \<Longrightarrow>
   x < fresh w \<and> x \<notin> set (map snd (items w) @ results w @ answers w)"
  by (auto simp: core_ok_def owned_def)

lemma callback_not_owned:
  "core_ok w \<Longrightarrow> x \<in> set (callbacks w) \<Longrightarrow>
   x < fresh w \<and> x \<notin> set (map snd (items w) @ results w @ answers w)"
  by (auto simp: core_ok_def owned_def)

lemma machine_update_facts [simp]:
  "owned (w\<lparr>stateMachine := m\<rparr>) = owned w"
  "results (w\<lparr>stateMachine := m\<rparr>) = results w"
  "answers (w\<lparr>stateMachine := m\<rparr>) = answers w"
  "callbacks (w\<lparr>stateMachine := m\<rparr>) = callbacks w"
  "status (w\<lparr>stateMachine := m\<rparr>) = status w"
  "heap_ok (w\<lparr>stateMachine := m\<rparr>) = heap_ok w"
  by (simp_all add: core_defs status_def heap_ok_def fun_eq_iff)

lemma core_ok_machine:
  assumes ok: "core_ok w" and sub: "signals (w\<lparr>stateMachine := m\<rparr>) \<subseteq> signals w"
  shows "core_ok (w\<lparr>stateMachine := m\<rparr>)"
proof -
  from ok have b: "\<forall>x \<in> set (owned w) \<union> signals w. x < fresh w"
    and d: "signals w \<inter> set (owned w) = {}"
    by (simp_all add: core_ok_def)
  have b': "\<forall>x \<in> set (owned w) \<union> signals (w\<lparr>stateMachine := m\<rparr>). x < fresh w"
    using b sub by blast
  have d': "signals (w\<lparr>stateMachine := m\<rparr>) \<inter> set (owned w) = {}"
    using d sub by blast
  show ?thesis using ok b' d' by (simp add: core_ok_def)
qed

lemma unused_machine:
  assumes un: "unused x w" and sub: "signals (w\<lparr>stateMachine := m\<rparr>) \<subseteq> signals w"
  shows "unused x (w\<lparr>stateMachine := m\<rparr>)"
proof -
  have "x \<notin> signals (w\<lparr>stateMachine := m\<rparr>)" using un sub by (auto simp: unused_def)
  then show ?thesis using un by (simp add: unused_def)
qed

lemma ran_remove: "ran (m(k := None)) \<subseteq> ran m"
  by (auto simp: ran_def split: if_splits)

lemma machine_transition_cases:
  obtains (quiet) e m where "machine_transition t w = (e, w\<lparr>stateMachine := m\<rparr>)"
      "ran (transitionResolvers m) \<subseteq> ran (transitionResolvers (stateMachine w))"
      "ran (transitionPromises m) \<subseteq> ran (transitionPromises (stateMachine w))"
  | (release) p m where "transitionResolvers (stateMachine w) t = Some p"
      "machine_transition t w = (None, (settle p Fulfilled w)\<lparr>stateMachine := m\<rparr>)"
      "ran (transitionResolvers m) \<subseteq> ran (transitionResolvers (stateMachine w))"
      "ran (transitionPromises m) \<subseteq> ran (transitionPromises (stateMachine w))"
proof (cases "allows_throws (stateMachine w) \<or> \<not> allows t (stateMachine w)")
  case True
  then have "machine_transition t w
               = (fst (machine_transition t w), w\<lparr>stateMachine := stateMachine w\<rparr>)"
    by (auto simp: machine_transition_eq)
  then show ?thesis by (rule quiet) simp_all
next
  case False
  note r1 = ran_remove [of "transitionResolvers (stateMachine w)" t]
  note r2 = ran_remove [of "transitionPromises (stateMachine w)" t]
  show ?thesis
  proof (cases "transitionResolvers (stateMachine w) t")
    case (Some p)
    have eq: "machine_transition t w =
            (None, (settle p Fulfilled w)\<lparr>stateMachine := (stateMachine w)
               \<lparr>current := t, transitionResolvers := (transitionResolvers (stateMachine w))(t := None),
                 transitionPromises := (transitionPromises (stateMachine w))(t := None)\<rparr>\<rparr>)"
      using False Some by (simp add: machine_transition_eq property_def)
    show ?thesis by (rule release [OF Some eq]) (simp_all add: r1 r2)
  next
    case None
    show ?thesis
    proof (cases "t \<in> set Object_prototype \<and> \<not> method_call_throws t")
      case True
      have eq: "machine_transition t w =
              (None, w\<lparr>stateMachine := (stateMachine w)
                 \<lparr>current := t, transitionResolvers := (transitionResolvers (stateMachine w))(t := None),
                   transitionPromises := (transitionPromises (stateMachine w))(t := None)\<rparr>\<rparr>)"
        using False None True by (simp add: machine_transition_eq property_def)
      show ?thesis by (rule quiet [OF eq]) (simp_all add: r1 r2)
    next
      case other: False
      have "machine_transition t w
              = (fst (machine_transition t w),
                 w\<lparr>stateMachine := (stateMachine w)\<lparr>current := t\<rparr>\<rparr>)"
        using False None other by (auto simp: machine_transition_eq property_def)
      then show ?thesis by (rule quiet) simp_all
    qed
  qed
qed

lemma core_ok_machine_transition:
  assumes ok: "core_ok w"
  shows "core_ok (snd (machine_transition t w))"
proof (cases rule: machine_transition_cases [of t w])
  case (quiet e m)
  have "core_ok (w\<lparr>stateMachine := m\<rparr>)"
    using ok quiet(2,3) by (intro core_ok_machine) (auto simp: signals_def)
  then show ?thesis using quiet(1) by simp
next
  case (release p m)
  have "p \<in> signals w" using release(1) by (auto simp: signals_def ran_def)
  then have "core_ok (settle p Fulfilled w)"
    using signal_not_owned [OF ok] ok by (intro core_ok_settle) auto
  then have "core_ok ((settle p Fulfilled w)\<lparr>stateMachine := m\<rparr>)"
    using release(3,4) by (intro core_ok_machine) (auto simp: signals_def)
  then show ?thesis using release(2) by simp
qed

lemma unused_machine_transition:
  assumes un: "unused x w"
  shows "unused x (snd (machine_transition t w))"
proof (cases rule: machine_transition_cases [of t w])
  case (quiet e m)
  have "unused x (w\<lparr>stateMachine := m\<rparr>)"
    using un quiet(2,3) by (intro unused_machine) (auto simp: signals_def)
  then show ?thesis using quiet(1) by simp
next
  case (release p m)
  have "p \<in> signals w" using release(1) by (auto simp: signals_def ran_def)
  then have "p \<noteq> x" using un by (auto simp: unused_def)
  then have "unused x (settle p Fulfilled w)" using un by (intro unused_settle)
  then have "unused x ((settle p Fulfilled w)\<lparr>stateMachine := m\<rparr>)"
    using release(3,4) by (intro unused_machine) (auto simp: signals_def)
  then show ?thesis using release(2) by simp
qed

lemma core_ok_notifications [simp]: "core_ok (w\<lparr>notifications := ns\<rparr>) = core_ok w"
  by (simp add: core_ok_def core_defs heap_ok_def status_def)

lemma unused_notifications [simp]: "unused x (w\<lparr>notifications := ns\<rparr>) = unused x w"
  by (simp add: unused_def core_defs status_def)

lemma core_ok_add_callback:
  assumes ok: "core_ok w" and un: "unused p w"
  shows "core_ok (w\<lparr>invocations := invocations w @ [(name, p)]\<rparr>)"
proof -
  let ?w = "w\<lparr>invocations := invocations w @ [(name, p)]\<rparr>"
  have o: "set (owned ?w) = insert p (set (owned w))" by (auto simp: core_defs)
  have s: "signals ?w = signals w" by (simp add: core_defs)
  have st: "status ?w = status w" by (simp add: status_def fun_eq_iff)
  have parts: "items ?w = items w" "results ?w = results w" "answers ?w = answers w"
    "callbacks ?w = callbacks w @ [p]" "fresh ?w = fresh w"
    by (simp_all add: core_defs)
  have h: "heap_ok ?w" using ok by (simp add: core_ok_def heap_ok_def)
  have d: "distinct (owned ?w)"
    using ok un by (auto simp: core_ok_def unused_def owned_def parts)
  show ?thesis
    unfolding core_ok_def
    using ok un h d by (auto simp: core_ok_def unused_def o s st parts)
qed

lemma core_ok_add_running:
  assumes ok: "core_ok w" and un: "unused r w"
  shows "core_ok (w\<lparr>running := running w @ [(p, i, t, r)]\<rparr>)"
proof -
  let ?w = "w\<lparr>running := running w @ [(p, i, t, r)]\<rparr>"
  have o: "set (owned ?w) = insert r (set (owned w))" by (auto simp: core_defs)
  have s: "signals ?w = signals w" by (simp add: core_defs)
  have st: "status ?w = status w" by (simp add: status_def fun_eq_iff)
  have parts: "items ?w = items w" "results ?w = results w @ [r]" "answers ?w = answers w"
    "callbacks ?w = callbacks w" "fresh ?w = fresh w"
    by (simp_all add: core_defs)
  have h: "heap_ok ?w" using ok by (simp add: core_ok_def heap_ok_def)
  have d: "distinct (owned ?w)"
    using ok un by (auto simp: core_ok_def unused_def owned_def parts)
  show ?thesis
    unfolding core_ok_def
    using ok un h d by (auto simp: core_ok_def unused_def o s st parts)
qed

lemma unused_add_callback:
  "unused x w \<Longrightarrow> x \<noteq> p \<Longrightarrow> unused x (w\<lparr>invocations := invocations w @ [(name, p)]\<rparr>)"
  by (auto simp: unused_def core_defs status_def)

lemma unused_alloc: "unused x w \<Longrightarrow> unused x (w\<lparr>fresh := Suc (fresh w)\<rparr>)"
  by (auto simp: unused_def core_defs status_def)

lemma core_ok_invoke: "core_ok w \<Longrightarrow> core_ok (snd (invoke f w))"
proof -
  assume ok: "core_ok w"
  note a = core_ok_alloc [OF ok]
  have now: "core_ok (settle (fresh w) s (w\<lparr>fresh := Suc (fresh w)\<rparr>))" for s
    using a unused_not_owned [of "fresh w" "w\<lparr>fresh := Suc (fresh w)\<rparr>"]
    by (intro core_ok_settle) (auto simp: unused_def)
  show ?thesis
  proof (cases f)
    case noop
    then show ?thesis using now by (simp add: invoke_eq)
  next
    case (Callback name)
    have "core_ok ((w\<lparr>fresh := Suc (fresh w)\<rparr>)
            \<lparr>invocations := invocations (w\<lparr>fresh := Suc (fresh w)\<rparr>) @ [(name, fresh w)]\<rparr>)"
      using a by (intro core_ok_add_callback) auto
    then show ?thesis using Callback by (simp add: invoke_eq)
  next
    case (Builtin name)
    then show ?thesis using now by (simp add: invoke_eq)
  qed
qed

lemma unused_invoke: "unused x w \<Longrightarrow> unused x (snd (invoke f w))"
proof -
  assume un: "unused x w"
  then have ne: "fresh w \<noteq> x" by (auto simp: unused_def)
  note a = unused_alloc [OF un]
  show ?thesis
  proof (cases f)
    case noop
    then show ?thesis using a ne by (simp add: invoke_eq unused_settle)
  next
    case (Callback name)
    have "unused x ((w\<lparr>fresh := Suc (fresh w)\<rparr>)
            \<lparr>invocations := invocations (w\<lparr>fresh := Suc (fresh w)\<rparr>) @ [(name, fresh w)]\<rparr>)"
      using a ne by (intro unused_add_callback) auto
    then show ?thesis using Callback by (simp add: invoke_eq)
  next
    case (Builtin name)
    then show ?thesis using a ne by (simp add: invoke_eq unused_settle)
  qed
qed

lemma machine_transition_keeps [simp]:
  "items (snd (machine_transition t w)) = items w"
  "draining (snd (machine_transition t w)) = draining w"
  "processing (snd (machine_transition t w)) = processing w"
  "waiting (snd (machine_transition t w)) = waiting w"
  "running (snd (machine_transition t w)) = running w"
  "invocations (snd (machine_transition t w)) = invocations w"
  "notifications (snd (machine_transition t w)) = notifications w"
  "onTransition (snd (machine_transition t w)) = onTransition w"
  by (simp_all add: machine_transition_eq split: property.splits)

lemma invoke_keeps [simp]:
  "items (snd (invoke f w)) = items w" "draining (snd (invoke f w)) = draining w"
  "processing (snd (invoke f w)) = processing w" "waiting (snd (invoke f w)) = waiting w"
  "running (snd (invoke f w)) = running w"
  "notifications (snd (invoke f w)) = notifications w"
  "fst (invoke f w) = fresh w"
  by (simp_all add: invoke_eq split: operation.splits)

lemma run_keeps [simp]:
  "items (snd (run d w)) = items w" "draining (snd (run d w)) = draining w"
  "processing (snd (run d w)) = processing w" "waiting (snd (run d w)) = waiting w"
  "fst (run d w) = fresh w"
  by (simp_all add: run_eq Let_def split: option.splits)

lemma core_ok_run: "core_ok w \<Longrightarrow> core_ok (snd (run d w))"
proof -
  assume ok: "core_ok w"
  let ?w1 = "w\<lparr>fresh := Suc (fresh w)\<rparr>"
  let ?w2 = "snd (machine_transition (interimState d) ?w1)"
  let ?w3 = "?w2\<lparr>notifications := notifications ?w2 @ [interimState d]\<rparr>"
  let ?w4 = "snd (invoke (operation d) ?w3)"
  note a = core_ok_alloc [OF ok]
  have ok2: "core_ok ?w2" using a by (intro core_ok_machine_transition) simp
  have un2: "unused (fresh w) ?w2" using a by (intro unused_machine_transition) simp
  have ok3: "core_ok ?w3" using ok2 by simp
  have un3: "unused (fresh w) ?w3" using un2 by simp
  have ok4: "core_ok ?w4" using ok3 by (rule core_ok_invoke)
  have un4: "unused (fresh w) ?w4" using un3 by (rule unused_invoke)
  have s1: "core_ok (settle (fresh w) s ?w1)" for s
    using a unused_not_owned [of "fresh w" ?w1]
    by (intro core_ok_settle) (auto simp: unused_def)
  have s2: "core_ok (settle (fresh w) s ?w2)" for s
    using ok2 un2 unused_not_owned [OF un2] by (intro core_ok_settle) (auto simp: unused_def)
  have s3: "core_ok (settle (fresh w) s ?w3)" for s
    using ok3 un3 unused_not_owned [OF un3] by (intro core_ok_settle) (auto simp: unused_def)
  have s4: "core_ok (?w4\<lparr>running := running ?w4
            @ [(fresh ?w3, interimState d, toState d, fresh w)]\<rparr>)"
    using ok4 un4 by (rule core_ok_add_running)
  show ?thesis
    using s1 s2 s3 s4 by (simp add: run_eq Let_def split: option.splits)
qed

lemma core_ok_queue_fields:
  "core_ok (w\<lparr>processing := b\<rparr>) = core_ok w"
  "core_ok (w\<lparr>draining := fs\<rparr>) = core_ok w"
  by (simp_all add: core_ok_def core_defs heap_ok_def status_def)

lemma core_ok_add_item:
  assumes ok: "core_ok w" and un: "unused h w"
  shows "core_ok (w\<lparr>items := items w @ [(d, h)]\<rparr>)"
proof -
  let ?w = "w\<lparr>items := items w @ [(d, h)]\<rparr>"
  have o: "set (owned ?w) = insert h (set (owned w))" by (auto simp: core_defs)
  have s: "signals ?w = signals w" by (simp add: core_defs)
  have st: "status ?w = status w" by (simp add: status_def fun_eq_iff)
  have parts: "items ?w = items w @ [(d, h)]" "results ?w = results w" "answers ?w = answers w"
    "callbacks ?w = callbacks w" "fresh ?w = fresh w"
    by (simp_all add: core_defs)
  have hp: "heap_ok ?w" using ok by (simp add: core_ok_def heap_ok_def)
  have dd: "distinct (owned ?w)"
    using ok un by (auto simp: core_ok_def unused_def owned_def parts)
  show ?thesis
    unfolding core_ok_def
    using ok un hp dd by (auto simp: core_ok_def unused_def o s st parts)
qed

lemma core_ok_pop_item:
  assumes ok: "core_ok w" and it: "items w = (d, h) # rest"
  shows "core_ok ((settle h outcome w)\<lparr>items := rest\<rparr>)"
proof -
  let ?w = "(settle h outcome w)\<lparr>items := rest\<rparr>"
  have o: "set (owned ?w) \<subseteq> set (owned w)" using it by (auto simp: core_defs)
  have s: "signals ?w = signals w" by (simp add: core_defs)
  have parts: "items ?w = rest" "results ?w = results w" "answers ?w = answers w"
    "callbacks ?w = callbacks w" "fresh ?w = fresh w"
    by (simp_all add: core_defs fresh_settle)
  have hin: "h \<in> set (owned w)" using it by (simp add: owned_def)
  then have hlt: "h < fresh w" using ok by (simp add: core_ok_def)
  have hp: "heap_ok ?w"
    using ok hlt heap_ok_settle [of w h outcome] by (simp add: core_ok_def heap_ok_def)
  have dd: "distinct (owned ?w)"
    using ok it by (auto simp: core_ok_def owned_def parts)
  have st: "\<And>x. x \<noteq> h \<Longrightarrow> status ?w x = status w x"
    using status_settle [of h outcome w] by (simp add: status_def)
  have hnot: "h \<notin> set (map snd rest @ results w @ answers w)"
    using ok it by (auto simp: core_ok_def owned_def)
  have pend: "\<forall>x \<in> set (map snd rest @ results w @ answers w). status ?w x = None"
  proof
    fix x assume x: "x \<in> set (map snd rest @ results w @ answers w)"
    then have "x \<noteq> h" using hnot by auto
    moreover have "status w x = None" using ok it x by (auto simp: core_ok_def)
    ultimately show "status ?w x = None" using st by simp
  qed
  have b: "\<forall>x \<in> set (owned ?w) \<union> signals ?w. x < fresh ?w"
    using ok o s parts by (auto simp: core_ok_def)
  have dj: "signals ?w \<inter> set (owned ?w) = {}"
    using ok o s by (auto simp: core_ok_def)
  show ?thesis
    unfolding core_ok_def using hp b dd dj pend parts by simp
qed

lemma ok_processLoop:
  assumes ok: "core_ok w" and idle: "draining w = []" and busy: "items w \<noteq> [] \<longrightarrow> processing w"
  shows "lifecycle_ok (processLoop run w)"
proof (cases "items w")
  case Nil
  then show ?thesis using ok idle
    by (simp add: processLoop_run lifecycle_ok_def shape_ok_def core_ok_queue_fields)
next
  case (Cons ih rest)
  have "core_ok (snd (run (fst ih) w))" using ok by (rule core_ok_run)
  then show ?thesis using Cons idle busy
    by (simp add: processLoop_run lifecycle_ok_def shape_ok_def core_ok_queue_fields)
qed

lemma unused_queue_fields:
  "unused x (w\<lparr>processing := b\<rparr>) = unused x w"
  by (simp add: unused_def core_defs status_def)

lemma ok_enqueue:
  assumes ok: "lifecycle_ok w"
  shows "lifecycle_ok (snd (enqueue run d w))"
proof -
  let ?w1 = "w\<lparr>fresh := Suc (fresh w)\<rparr>"
  from ok have c: "core_ok w" and sh: "shape_ok w" by (simp_all add: lifecycle_ok_def)
  note a = core_ok_alloc [OF c]
  have c2: "core_ok (?w1\<lparr>items := items ?w1 @ [(d, fresh w)]\<rparr>)"
    using a by (intro core_ok_add_item) auto
  show ?thesis
  proof (cases "processing w")
    case True
    then have "items w \<noteq> []" using sh by (auto simp: shape_ok_def)
    then have "hd (items w @ [(d, fresh w)]) = hd (items w)" by simp
    then show ?thesis using True c2 sh
      by (simp add: enqueue_run lifecycle_ok_def shape_ok_def)
  next
    case False
    then have idle: "draining w = []" using sh by (auto simp: shape_ok_def)
    have "lifecycle_ok (processLoop run
            (w\<lparr>fresh := Suc (fresh w), items := items w @ [(d, fresh w)], processing := True\<rparr>))"
      using c2 idle by (intro ok_processLoop) (simp_all add: core_ok_queue_fields)
    then show ?thesis using False by (simp add: enqueue_run)
  qed
qed

lemma ok_resumeProcessQueue:
  assumes ok: "lifecycle_ok w" and fin: "f \<in> set (draining w)"
  shows "lifecycle_ok (resumeProcessQueue run f w)"
proof -
  from ok have c: "core_ok w" and sh: "shape_ok w" by (simp_all add: lifecycle_ok_def)
  obtain p d h where f: "f = (p, d, h)" by (cases f)
  from sh fin have dr: "draining w = [f]"
    by (cases "draining w") (auto simp: shape_ok_def)
  from sh dr f have hd: "hd (items w) = (d, h)" and ne: "items w \<noteq> []" and pr: "processing w"
    by (auto simp: shape_ok_def)
  then obtain rest where it: "items w = (d, h) # rest" by (cases "items w") auto
  show ?thesis
  proof (cases "status w p")
    case None
    then show ?thesis using ok by (simp add: resumeProcessQueue_run f)
  next
    case (Some outcome)
    have "core_ok ((settle h outcome w)\<lparr>items := rest\<rparr>)"
      using c it by (rule core_ok_pop_item)
    then have "core_ok (((settle h outcome w)\<lparr>items := rest\<rparr>)\<lparr>draining := []\<rparr>)"
      by (simp only: core_ok_queue_fields)
    moreover have "(settle h outcome (w\<lparr>draining := []\<rparr>))\<lparr>items := rest\<rparr>
                     = ((settle h outcome w)\<lparr>items := rest\<rparr>)\<lparr>draining := []\<rparr>"
      by (simp add: settle_def status_def)
    ultimately have c1: "core_ok ((settle h outcome (w\<lparr>draining := []\<rparr>))\<lparr>items := rest\<rparr>)"
      by simp
    have "lifecycle_ok (processLoop run
            ((settle h outcome (w\<lparr>draining := []\<rparr>))\<lparr>items := rest\<rparr>))"
      using c1 pr by (intro ok_processLoop) simp_all
    then show ?thesis using Some dr it by (simp add: resumeProcessQueue_run f)
  qed
qed

lemma distinct_map_remove1:
  "distinct (map g xs) \<Longrightarrow> x \<in> set xs \<Longrightarrow> g x \<notin> set (map g (remove1 x xs))"
proof (induction xs)
  case Nil
  then show ?case by simp
next
  case (Cons a xs)
  show ?case
  proof (cases "a = x")
    case True
    then show ?thesis using Cons.prems by auto
  next
    case False
    then have xin: "x \<in> set xs" using Cons.prems by simp
    have d: "distinct (map g xs)" using Cons.prems by simp
    have ih: "g x \<notin> set (map g (remove1 x xs))" using Cons.IH [OF d xin] .
    have "g a \<notin> g ` set xs" using Cons.prems by simp
    then have "g x \<noteq> g a" using xin by (metis image_eqI)
    then show ?thesis using False ih by simp
  qed
qed

lemma set_map_remove1_subset: "set (map g (remove1 x xs)) \<subseteq> set (map g xs)"
  using set_remove1_subset [of x xs] by auto

lemma distinct_map_remove1_distinct:
  "distinct (map g xs) \<Longrightarrow> distinct (map g (remove1 x xs))"
proof (induction xs)
  case Nil
  then show ?case by simp
next
  case (Cons a xs)
  have d: "distinct (map g xs)" and na: "g a \<notin> set (map g xs)" using Cons.prems by simp_all
  have "g a \<notin> set (map g (remove1 x xs))"
    using na set_map_remove1_subset [of g x xs] by blast
  then show ?case using Cons.IH [OF d] d by simp
qed

lemma core_ok_remove_running:
  assumes ok: "core_ok w" and fin: "f \<in> set (running w)"
  shows "core_ok (w\<lparr>running := remove1 f (running w)\<rparr>)
         \<and> unused (snd (snd (snd f))) (w\<lparr>running := remove1 f (running w)\<rparr>)"
proof -
  let ?w = "w\<lparr>running := remove1 f (running w)\<rparr>"
  let ?r = "snd (snd (snd f))"
  have parts: "items ?w = items w" "answers ?w = answers w" "callbacks ?w = callbacks w"
    "fresh ?w = fresh w" "signals ?w = signals w" "status ?w = status w"
    "results ?w = map (\<lambda>f. snd (snd (snd f))) (remove1 f (running w))"
    by (simp_all add: core_defs status_def fun_eq_iff)
  have sub: "set (results ?w) \<subseteq> set (results w)"
    using set_map_remove1_subset [of "\<lambda>f. snd (snd (snd f))" f "running w"]
    by (simp add: results_def)
  have dres: "distinct (results ?w)"
    using ok unfolding parts by (intro distinct_map_remove1_distinct) (simp add: core_ok_def owned_def results_def)
  have rnot: "?r \<notin> set (results ?w)"
    using ok fin unfolding parts
    by (intro distinct_map_remove1) (simp_all add: core_ok_def owned_def results_def)
  have rin: "?r \<in> set (results w)" using fin by (auto simp: results_def)
  have hp: "heap_ok ?w" using ok by (simp add: core_ok_def heap_ok_def)
  have dd: "distinct (owned ?w)"
    using ok sub dres by (auto simp: core_ok_def owned_def parts(1-3))
  have osub: "set (owned ?w) \<subseteq> set (owned w)"
    using sub by (auto simp: owned_def parts(1-3))
  have c: "core_ok ?w"
    unfolding core_ok_def
    using ok hp dd osub sub by (auto simp: core_ok_def parts(1-6))
  have "?r \<notin> set (owned ?w)"
    using ok rin rnot by (auto simp: core_ok_def owned_def parts(1-3))
  moreover have "?r < fresh w" "?r \<notin> signals w" "status w ?r = None"
    using ok rin by (auto simp: core_ok_def owned_def)
  ultimately have "unused ?r ?w" by (simp add: unused_def parts(4-6))
  with c show ?thesis by simp
qed

lemma shape_ok_cong:
  "items w' = items w \<Longrightarrow> draining w' = draining w \<Longrightarrow> processing w' = processing w \<Longrightarrow>
   shape_ok w' = shape_ok w"
  by (simp add: shape_ok_def)

lemma resumeRun_keeps [simp]:
  "items (resumeRun f w) = items w" "draining (resumeRun f w) = draining w"
  "processing (resumeRun f w) = processing w" "waiting (resumeRun f w) = waiting w"
  by (cases f; simp add: resumeRun_eq Let_def split: option.splits settlement.splits)+

lemma ok_resumeRun:
  assumes ok: "lifecycle_ok w" and fin: "f \<in> set (running w)"
  shows "lifecycle_ok (resumeRun f w)"
proof -
  from ok have c: "core_ok w" and sh: "shape_ok w" by (simp_all add: lifecycle_ok_def)
  obtain p i t r where f: "f = (p, i, t, r)" by (cases f)
  let ?w1 = "w\<lparr>running := remove1 f (running w)\<rparr>"
  from core_ok_remove_running [OF c fin] f
  have c1: "core_ok ?w1" and u1: "unused r ?w1" by simp_all
  have s1: "core_ok (settle r s ?w1)" for s
    using c1 u1 unused_not_owned [OF u1] by (intro core_ok_settle) (auto simp: unused_def)
  let ?w2 = "snd (machine_transition t ?w1)"
  have c2: "core_ok ?w2" using c1 by (rule core_ok_machine_transition)
  have u2: "unused r ?w2" using u1 by (rule unused_machine_transition)
  have s2: "core_ok (settle r s ?w2)" for s
    using c2 u2 unused_not_owned [OF u2] by (intro core_ok_settle) (auto simp: unused_def)
  let ?w3 = "?w2\<lparr>notifications := notifications ?w2 @ [t]\<rparr>"
  have c3: "core_ok ?w3" using c2 by simp
  have u3: "unused r ?w3" using u2 by simp
  have s3: "core_ok (settle r s ?w3)" for s
    using c3 u3 unused_not_owned [OF u3] by (intro core_ok_settle) (auto simp: unused_def)
  have core: "core_ok (resumeRun f w)"
    using c s1 s2 s3 unfolding f
    by (simp add: resumeRun_eq Let_def split: option.splits settlement.splits)
  have "shape_ok (resumeRun f w) = shape_ok w" by (intro shape_ok_cong) simp_all
  with core sh show ?thesis by (simp add: lifecycle_ok_def)
qed

lemma core_ok_add_waiting:
  assumes ok: "core_ok w" and un: "unused u w" and pl: "p < fresh w"
    and po: "p \<notin> set (owned w)" and pu: "p \<noteq> u"
  shows "core_ok (w\<lparr>waiting := waiting w @ [(p, u)]\<rparr>)"
proof -
  let ?w = "w\<lparr>waiting := waiting w @ [(p, u)]\<rparr>"
  have o: "set (owned ?w) = insert u (set (owned w))" by (auto simp: core_defs)
  have s: "signals ?w = insert p (signals w)" by (auto simp: core_defs)
  have st: "status ?w = status w" by (simp add: status_def fun_eq_iff)
  have parts: "items ?w = items w" "results ?w = results w" "answers ?w = answers w @ [u]"
    "callbacks ?w = callbacks w" "fresh ?w = fresh w"
    by (simp_all add: core_defs)
  have hp: "heap_ok ?w" using ok by (simp add: core_ok_def heap_ok_def)
  have dd: "distinct (owned ?w)"
    using ok un by (auto simp: core_ok_def unused_def owned_def parts)
  show ?thesis
    unfolding core_ok_def
    using ok un hp dd pl po pu by (auto simp: core_ok_def unused_def o s st parts)
qed

lemma core_ok_machine_grow:
  assumes ok: "core_ok w"
    and sub: "\<forall>x \<in> signals (w\<lparr>stateMachine := m\<rparr>). x \<in> signals w \<or> (x < fresh w \<and> x \<notin> set (owned w))"
  shows "core_ok (w\<lparr>stateMachine := m\<rparr>)"
proof -
  from ok have b: "\<forall>x \<in> set (owned w) \<union> signals w. x < fresh w"
    and d: "signals w \<inter> set (owned w) = {}"
    by (simp_all add: core_ok_def)
  have b': "\<forall>x \<in> set (owned w) \<union> signals (w\<lparr>stateMachine := m\<rparr>). x < fresh w"
    using b sub by blast
  have d': "signals (w\<lparr>stateMachine := m\<rparr>) \<inter> set (owned w) = {}"
    using d sub by blast
  show ?thesis using ok b' d' by (simp add: core_ok_def)
qed

lemma unused_machine_grow:
  assumes un: "unused x w"
    and sub: "\<forall>y \<in> signals (w\<lparr>stateMachine := m\<rparr>). y \<in> signals w \<or> y \<noteq> x"
  shows "unused x (w\<lparr>stateMachine := m\<rparr>)"
proof -
  have "x \<notin> signals (w\<lparr>stateMachine := m\<rparr>)" using un sub by (auto simp: unused_def)
  then show ?thesis using un by (simp add: unused_def)
qed

lemma ran_add: "ran (m(k \<mapsto> v)) \<subseteq> insert v (ran m)"
  by (auto simp: ran_def split: if_splits)

lemma core_ok_until:
  assumes ok: "core_ok w"
  shows "core_ok (snd (lifecycle_until s w))"
proof -
  let ?f = "fresh w"
  let ?w1 = "w\<lparr>fresh := Suc ?f\<rparr>"
  have c1: "core_ok ?w1" and u1: "unused ?f ?w1" using core_ok_alloc [OF ok] by simp_all
  show ?thesis
  proof (cases "current (stateMachine w) = s
      \<or> property (transitionPromises (stateMachine w)) s = Inherited")
    case True
    let ?w2 = "?w1\<lparr>fresh := Suc (fresh ?w1)\<rparr>"
    have c2: "core_ok ?w2" and p2: "unused (Suc ?f) ?w2"
      using core_ok_alloc [OF c1] by simp_all
    have u2: "unused ?f ?w2" using u1 by (rule unused_alloc)
    let ?w3 = "settle (Suc ?f) Fulfilled ?w2"
    have c3: "core_ok ?w3"
      using c2 p2 unused_not_owned [OF p2] by (intro core_ok_settle) (auto simp: unused_def)
    have u3: "unused ?f ?w3" using u2 by (intro unused_settle) simp_all
    have "core_ok (?w3\<lparr>waiting := waiting ?w3 @ [(Suc ?f, ?f)]\<rparr>)"
      using c3 u3 p2 by (intro core_ok_add_waiting) (auto simp: unused_def fresh_settle)
    then show ?thesis using True by (simp add: lifecycle_until_eq)
  next
    case False
    show ?thesis
    proof (cases "transitionPromises (stateMachine w) s")
      case (Some p)
      have psig: "p \<in> signals ?w1" using Some by (auto simp: signals_def ran_def)
      then have "p < fresh ?w1" "p \<notin> set (owned ?w1)" "p \<noteq> ?f"
        using c1 u1 by (auto simp: core_ok_def unused_def)
      then have "core_ok (?w1\<lparr>waiting := waiting ?w1 @ [(p, ?f)]\<rparr>)"
        using c1 u1 by (intro core_ok_add_waiting)
      then show ?thesis using False Some by (simp add: lifecycle_until_eq)
    next
      case None
      let ?w2 = "?w1\<lparr>fresh := Suc (fresh ?w1)\<rparr>"
      have c2: "core_ok ?w2" and p2: "unused (Suc ?f) ?w2"
        using core_ok_alloc [OF c1] by simp_all
      have u2: "unused ?f ?w2" using u1 by (rule unused_alloc)
      let ?m = "(stateMachine w)
                 \<lparr>transitionResolvers := (transitionResolvers (stateMachine w))(s \<mapsto> Suc ?f),
                   transitionPromises := (transitionPromises (stateMachine w))(s \<mapsto> Suc ?f)\<rparr>"
      have sig: "signals (?w2\<lparr>stateMachine := ?m\<rparr>) \<subseteq> insert (Suc ?f) (signals ?w2)"
        using ran_add [of "transitionResolvers (stateMachine w)" s "Suc ?f"]
          ran_add [of "transitionPromises (stateMachine w)" s "Suc ?f"]
        by (auto simp: signals_def)
      have c3: "core_ok (?w2\<lparr>stateMachine := ?m\<rparr>)"
        using c2 p2 sig by (intro core_ok_machine_grow) (auto simp: unused_def)
      have u3: "unused ?f (?w2\<lparr>stateMachine := ?m\<rparr>)"
        using u2 sig by (intro unused_machine_grow) auto
      have "core_ok ((?w2\<lparr>stateMachine := ?m\<rparr>)
              \<lparr>waiting := waiting (?w2\<lparr>stateMachine := ?m\<rparr>) @ [(Suc ?f, ?f)]\<rparr>)"
        using c3 u3 p2 by (intro core_ok_add_waiting) (auto simp: unused_def)
      then show ?thesis using False None by (simp add: lifecycle_until_eq)
    qed
  qed
qed

lemma core_ok_remove_waiting:
  assumes ok: "core_ok w" and fin: "f \<in> set (waiting w)"
  shows "core_ok (w\<lparr>waiting := remove1 f (waiting w)\<rparr>)
         \<and> unused (snd f) (w\<lparr>waiting := remove1 f (waiting w)\<rparr>)"
proof -
  let ?w = "w\<lparr>waiting := remove1 f (waiting w)\<rparr>"
  let ?u = "snd f"
  have parts: "items ?w = items w" "results ?w = results w" "callbacks ?w = callbacks w"
    "fresh ?w = fresh w" "status ?w = status w"
    "answers ?w = map snd (remove1 f (waiting w))"
    by (simp_all add: core_defs status_def fun_eq_iff)
  have sub: "set (answers ?w) \<subseteq> set (answers w)"
    using set_map_remove1_subset [of snd f "waiting w"] by (simp add: answers_def)
  have ssub: "signals ?w \<subseteq> signals w"
    using set_remove1_subset [of f "waiting w"] by (auto simp: signals_def)
  have dans: "distinct (answers ?w)"
    using ok unfolding parts
    by (intro distinct_map_remove1_distinct) (simp add: core_ok_def owned_def answers_def)
  have unot: "?u \<notin> set (answers ?w)"
    using ok fin unfolding parts
    by (intro distinct_map_remove1) (simp_all add: core_ok_def owned_def answers_def)
  have uin: "?u \<in> set (answers w)" using fin by (auto simp: answers_def)
  have hp: "heap_ok ?w" using ok by (simp add: core_ok_def heap_ok_def)
  have dd: "distinct (owned ?w)"
    using ok sub dans by (auto simp: core_ok_def owned_def parts(1-3))
  have osub: "set (owned ?w) \<subseteq> set (owned w)"
    using sub by (auto simp: owned_def parts(1-3))
  have c: "core_ok ?w"
    unfolding core_ok_def
    using ok hp dd osub sub ssub by (auto simp: core_ok_def parts(1-5))
  have "?u \<notin> set (owned ?w)"
    using ok uin unot by (auto simp: core_ok_def owned_def parts(1-3))
  moreover have "?u < fresh w" "?u \<notin> signals w" "status w ?u = None"
    using ok uin by (auto simp: core_ok_def owned_def)
  ultimately have "unused ?u ?w" using ssub by (auto simp: unused_def parts(4-5))
  with c show ?thesis by simp
qed

lemma resumeUntil_keeps [simp]:
  "items (resumeUntil f w) = items w" "draining (resumeUntil f w) = draining w"
  "processing (resumeUntil f w) = processing w" "running (resumeUntil f w) = running w"
  "stateMachine (resumeUntil f w) = stateMachine w"
  by (cases f; simp add: resumeUntil_eq split: option.splits)+

lemma ok_resumeUntil:
  assumes ok: "lifecycle_ok w" and fin: "f \<in> set (waiting w)"
  shows "lifecycle_ok (resumeUntil f w)"
proof -
  from ok have c: "core_ok w" and sh: "shape_ok w" by (simp_all add: lifecycle_ok_def)
  obtain p u where f: "f = (p, u)" by (cases f)
  let ?w1 = "w\<lparr>waiting := remove1 f (waiting w)\<rparr>"
  from core_ok_remove_waiting [OF c fin] f
  have c1: "core_ok ?w1" and u1: "unused u ?w1" by simp_all
  have s1: "core_ok (settle u s ?w1)" for s
    using c1 u1 unused_not_owned [OF u1] by (intro core_ok_settle) (auto simp: unused_def)
  have core: "core_ok (resumeUntil f w)"
    using c s1 unfolding f by (simp add: resumeUntil_eq split: option.splits)
  have "shape_ok (resumeUntil f w) = shape_ok w" by (intro shape_ok_cong) simp_all
  with core sh show ?thesis by (simp add: lifecycle_ok_def)
qed

lemma ok_until: "lifecycle_ok w \<Longrightarrow> lifecycle_ok (snd (lifecycle_until s w))"
proof -
  assume ok: "lifecycle_ok w"
  have "shape_ok (snd (lifecycle_until s w)) = shape_ok w"
    by (intro shape_ok_cong) (simp_all add: lifecycle_until_eq split: option.splits)
  then show ?thesis using ok core_ok_until [of w s] by (simp add: lifecycle_ok_def)
qed

lemma awaiting_member: "awaiting p fs = Some f \<Longrightarrow> f \<in> set fs \<and> fst f = p"
  by (auto simp: awaiting_def find_Some_iff)

lemma ok_settle_callback:
  assumes ok: "lifecycle_ok w" and pin: "p \<in> snd ` set (invocations w)"
  shows "lifecycle_ok (settle p s w)"
proof -
  from ok have c: "core_ok w" and sh: "shape_ok w" by (simp_all add: lifecycle_ok_def)
  have "p \<in> set (callbacks w)" using pin by (simp add: callbacks_def)
  then have "core_ok (settle p s w)"
    using callback_not_owned [OF c] c by (intro core_ok_settle) auto
  moreover have "shape_ok (settle p s w) = shape_ok w" by (intro shape_ok_cong) simp_all
  ultimately show ?thesis using sh by (simp add: lifecycle_ok_def)
qed

lemma ok_simple_updates:
  assumes ok: "lifecycle_ok w"
  shows "lifecycle_ok (w\<lparr>onTransition := k\<rparr>)"
    and "lifecycle_ok (w\<lparr>stateMachine := new_StateMachine lifecycle_transitions\<rparr>)"
    and "lifecycle_ok (settle (fresh w) s (w\<lparr>fresh := Suc (fresh w)\<rparr>))"
proof -
  from ok have c: "core_ok w" and sh: "shape_ok w" by (simp_all add: lifecycle_ok_def)
  have "core_ok (w\<lparr>onTransition := k\<rparr>)"
    using c by (simp add: core_ok_def core_defs heap_ok_def status_def)
  then show "lifecycle_ok (w\<lparr>onTransition := k\<rparr>)"
    using sh by (simp add: lifecycle_ok_def shape_ok_def)
  have "core_ok (w\<lparr>stateMachine := new_StateMachine lifecycle_transitions\<rparr>)"
    using c by (intro core_ok_machine) (auto simp: signals_def new_StateMachine_def)
  then show "lifecycle_ok (w\<lparr>stateMachine := new_StateMachine lifecycle_transitions\<rparr>)"
    using sh by (simp add: lifecycle_ok_def shape_ok_def)
  let ?w1 = "w\<lparr>fresh := Suc (fresh w)\<rparr>"
  have c1: "core_ok ?w1" and u1: "unused (fresh w) ?w1" using core_ok_alloc [OF c] by simp_all
  have "core_ok (settle (fresh w) s ?w1)"
    using c1 u1 unused_not_owned [OF u1] by (intro core_ok_settle) (auto simp: unused_def)
  moreover have "shape_ok (settle (fresh w) s ?w1) = shape_ok w"
    by (intro shape_ok_cong) simp_all
  ultimately show "lifecycle_ok (settle (fresh w) s ?w1)" using sh by (simp add: lifecycle_ok_def)
qed

lemma ok_perform: "lifecycle_ok w \<Longrightarrow> lifecycle_ok (snd (perform c w))"
  unfolding perform_world
  by (cases c) (simp_all add: ok_enqueue ok_until ok_simple_updates split: property.splits)

lemma ok_step: "lifecycle_ok w \<Longrightarrow> lifecycle_ok (step ev w)"
proof (cases ev)
  case (Call c)
  assume "lifecycle_ok w"
  then show ?thesis using Call by (simp add: ok_perform)
next
  case (Settle p outcome)
  assume "lifecycle_ok w"
  then show ?thesis using Settle by (simp add: ok_settle_callback)
next
  case (Wake p)
  assume ok: "lifecycle_ok w"
  show ?thesis
    using Wake ok
    by (auto simp: ok_resumeRun ok_resumeProcessQueue ok_resumeUntil
        split: option.splits dest!: awaiting_member)
qed

lemma ok_exec: "lifecycle_ok w \<Longrightarrow> lifecycle_ok (exec evs w)"
  by (induction evs arbitrary: w) (simp_all add: ok_step)

lemma ok_new: "lifecycle_ok (new_Lifecycle supplied)"
  by (simp add: lifecycle_ok_def core_ok_def shape_ok_def core_defs heap_ok_def
      new_Lifecycle_def new_StateMachine_def)

lemma ok_reached: "lifecycle_ok (exec evs (new_Lifecycle supplied))"
  by (rule ok_exec [OF ok_new])

section \<open>Lifecycle: the runner\<close>

lemma nine_reached: "nine_ok (stateMachine (exec evs (new_Lifecycle supplied)))"
  by (rule nine_exec) (simp add: new_Lifecycle_def nine_new)

lemma run_refused:
  "\<not> allows_throws (stateMachine w) \<Longrightarrow> \<not> allows (interimState d) (stateMachine w) \<Longrightarrow>
   run d w = (fresh w, settle (fresh w) Fulfilled (w\<lparr>fresh := Suc (fresh w)\<rparr>))"
  by (simp add: run_eq)

lemma machine_transition_current:
  "\<not> allows_throws (stateMachine w) \<Longrightarrow> allows t (stateMachine w) \<Longrightarrow>
   current (stateMachine (snd (machine_transition t w))) = t"
  by (simp add: machine_transition_eq split: property.splits)

text \<open>
  C7. In every controller a run reaches, when the callback of a suspended \<^verbatim>\<open>#run\<close> has
  succeeded and the activation resumes, the promise of \<^verbatim>\<open>#run\<close> was pending until
  then. If the current state is still the interim state and the graph has an edge from it
  to the final state, the state becomes the final state and the observer is called with
  it; the promise of \<^verbatim>\<open>#run\<close> is fulfilled when the observer returns, and rejected
  with what the observer threw otherwise. In every other case the state machine and the
  notifications are unchanged and the promise of \<^verbatim>\<open>#run\<close> is fulfilled.
\<close>

theorem final_transition_condition:
  assumes reach: "w = exec evs (new_Lifecycle supplied)"
    and frame: "(p, i, t, r) \<in> set (running w)"
    and ended: "status w p = Some Fulfilled"
  shows "(case resumeRun (p, i, t, r) w of w' \<Rightarrow>
            status w r = None
            \<and> (if current (stateMachine w) = i \<and> t \<in> set (edges i) then
                  current (stateMachine w') = t
                  \<and> notifications w' = notifications w @ [t]
                  \<and> status w' r =
                      Some (case onTransition w t of
                              None \<Rightarrow> Fulfilled
                            | Some x \<Rightarrow> Rejected (ObserverFailure x))
                else
                  stateMachine w' = stateMachine w \<and> notifications w' = notifications w
                  \<and> status w' r = Some Fulfilled))"
proof -
  have ok: "lifecycle_ok w" unfolding reach by (rule ok_reached)
  then have c: "core_ok w" by (simp add: lifecycle_ok_def)
  have nine: "nine_ok (stateMachine w)" unfolding reach by (rule nine_reached)
  have nt: "\<not> allows_throws (stateMachine w)" using nine by (rule nine_not_throws)
  let ?w1 = "w\<lparr>running := remove1 (p, i, t, r) (running w)\<rparr>"
  from core_ok_remove_running [OF c frame]
  have c1: "core_ok ?w1" and u1: "unused r ?w1" by simp_all
  have pend: "status w r = None" using u1 by (simp add: unused_def status_def)
  show ?thesis
  proof (cases "current (stateMachine w) = i \<and> allows t (stateMachine w)")
    case False
    have "status (settle r Fulfilled ?w1) r = Some Fulfilled"
      using u1 by (simp add: status_settle unused_def)
    then show ?thesis
      using False ended pend nt allows_edges [OF nine]
      by (auto simp: resumeRun_eq Let_def)
  next
    case True
    let ?w2 = "snd (machine_transition t ?w1)"
    let ?w3 = "?w2\<lparr>notifications := notifications ?w2 @ [t]\<rparr>"
    have none: "fst (machine_transition t ?w1) = None"
      using True nine by (intro machine_transition_allowed) simp_all
    have u3: "unused r ?w3"
      using u1 by (simp add: unused_machine_transition)
    have st: "status (settle r s ?w3) r = Some s" for s
      using u3 by (simp add: status_settle unused_def)
    have cur: "current (stateMachine ?w2) = t"
      using True nt by (intro machine_transition_current) simp_all
    have res: "resumeRun (p, i, t, r) w =
                 settle r (case onTransition w t of
                             None \<Rightarrow> Fulfilled
                           | Some x \<Rightarrow> Rejected (ObserverFailure x)) ?w3"
      using True ended nt none by (simp add: resumeRun_eq Let_def)
    from True have ci: "current (stateMachine w) = i" and al: "allows t (stateMachine w)"
      by simp_all
    have "t \<in> set (edges (current (stateMachine w)))"
      using al by (simp only: allows_edges [OF nine])
    then have edge: "t \<in> set (edges i)" by (simp only: ci)
    show ?thesis
      unfolding res using ci edge pend st cur by simp
  qed
qed

theorem final_transition_condition_witness:
  "(case exec [Call (On (\<lambda>s. if s = ''opened'' then Some ''stop'' else None)), Call Open,
               Settle 2 Fulfilled] (new_Lifecycle [''open''] :: string Lifecycle) of
    w \<Rightarrow>
      (2, ''opening'', ''opened'', 1) \<in> set (running w) \<and> status w 2 = Some Fulfilled
      \<and> current (stateMachine w) = ''opening'' \<and> ''opened'' \<in> set (edges ''opening'')
      \<and> onTransition w ''opened'' = Some ''stop''
      \<and> (case resumeRun (2, ''opening'', ''opened'', 1) w of w' \<Rightarrow>
            status w' 1 = Some (Rejected (ObserverFailure ''stop''))
            \<and> current (stateMachine w') = ''opened''
            \<and> notifications w' = notifications w @ [''opened'']))"
proof -
  define w :: "string Lifecycle" where
    "w = exec [Call (On (\<lambda>s. if s = ''opened'' then Some ''stop'' else None)), Call Open,
               Settle 2 Fulfilled] (new_Lifecycle [''open''])"
  have frame: "(2, ''opening'', ''opened'', 1) \<in> set (running w)"
    and ended: "status w 2 = Some Fulfilled"
    and cur: "current (stateMachine w) = ''opening''"
    and obs: "onTransition w ''opened'' = Some ''stop''"
    unfolding w_def by (simp_all add: lifecycle_eval)
  have edge: "''opened'' \<in> set (edges ''opening'')"
    by (simp add: edges_def lifecycle_transitions_def)
  have main: "(2, ''opening'', ''opened'', 1) \<in> set (running w) \<and> status w 2 = Some Fulfilled
      \<and> current (stateMachine w) = ''opening'' \<and> ''opened'' \<in> set (edges ''opening'')
      \<and> onTransition w ''opened'' = Some ''stop''
      \<and> (case resumeRun (2, ''opening'', ''opened'', 1) w of w' \<Rightarrow>
            status w' 1 = Some (Rejected (ObserverFailure ''stop''))
            \<and> current (stateMachine w') = ''opened''
            \<and> notifications w' = notifications w @ [''opened''])"
    using final_transition_condition [OF w_def frame ended] frame ended cur edge obs by simp
  show ?thesis by (rule main [unfolded w_def])
qed

text \<open>
  C1. In every controller a run reaches, \<^verbatim>\<open>#run\<close> on a descriptor whose interim state
  the current state does not allow returns a promise that is fulfilled at once, and changes
  nothing else: the state machine, the callbacks called and the notifications are as
  before. In particular, after two \<^verbatim>\<open>open()\<close> calls in a row on a new controller the
  callback has been called once, and when it succeeds both calls are fulfilled, the
  callback still called once, and the state is \<^verbatim>\<open>opened\<close>.
\<close>

theorem run_skips_disallowed:
  "(\<not> allows (interimState d) (stateMachine (exec evs (new_Lifecycle supplied))) \<longrightarrow>
      (case exec evs (new_Lifecycle supplied) of w \<Rightarrow>
         (case run d w of (r, w') \<Rightarrow>
            r = fresh w \<and> status w r = None \<and> status w' r = Some Fulfilled
            \<and> w' = w\<lparr>settled := settled w @ [(r, Fulfilled)], fresh := Suc (fresh w)\<rparr>
            \<and> stateMachine w' = stateMachine w \<and> invocations w' = invocations w
            \<and> notifications w' = notifications w)))
   \<and> (''open'' \<in> set supplied' \<longrightarrow>
      (case exec [Call Open, Call Open] (new_Lifecycle supplied') of w \<Rightarrow>
         invocations w = [(''open'', 2)] \<and> current (stateMachine w) = ''opening''
         \<and> map snd (items w) = [0, 3]
         \<and> (case exec [Settle 2 Fulfilled, Wake 2, Wake 1, Wake 4] w of w' \<Rightarrow>
               invocations w' = [(''open'', 2)] \<and> current (stateMachine w') = ''opened''
               \<and> status w' 0 = Some Fulfilled \<and> status w' 3 = Some Fulfilled
               \<and> items w' = [] \<and> \<not> processing w')))"
proof -
  let ?w = "exec evs (new_Lifecycle supplied)"
  have part1: "\<not> allows (interimState d) (stateMachine ?w) \<longrightarrow>
      (case ?w of w \<Rightarrow>
         (case run d w of (r, w') \<Rightarrow>
            r = fresh w \<and> status w r = None \<and> status w' r = Some Fulfilled
            \<and> w' = w\<lparr>settled := settled w @ [(r, Fulfilled)], fresh := Suc (fresh w)\<rparr>
            \<and> stateMachine w' = stateMachine w \<and> invocations w' = invocations w
            \<and> notifications w' = notifications w))"
  proof (rule impI)
    assume no: "\<not> allows (interimState d) (stateMachine ?w)"
    have nt: "\<not> allows_throws (stateMachine ?w)"
      by (rule nine_not_throws [OF nine_reached])
    have "lifecycle_ok ?w" by (rule ok_reached)
    then have "heap_ok ?w" by (simp add: lifecycle_ok_def core_ok_def)
    then have pend: "status ?w (fresh ?w) = None" by (simp add: heap_ok_pending)
    then have "settle (fresh ?w) Fulfilled (?w\<lparr>fresh := Suc (fresh ?w)\<rparr>)
                 = ?w\<lparr>settled := settled ?w @ [(fresh ?w, Fulfilled)], fresh := Suc (fresh ?w)\<rparr>"
      by (simp add: settle_def status_def)
    moreover have "status (?w\<lparr>settled := settled ?w @ [(fresh ?w, Fulfilled)],
                     fresh := Suc (fresh ?w)\<rparr>) (fresh ?w) = Some Fulfilled"
      using pend by (simp add: status_def map_add_def)
    ultimately show "case ?w of w \<Rightarrow>
           (case run d w of (r, w') \<Rightarrow>
              r = fresh w \<and> status w r = None \<and> status w' r = Some Fulfilled
              \<and> w' = w\<lparr>settled := settled w @ [(r, Fulfilled)], fresh := Suc (fresh w)\<rparr>
              \<and> stateMachine w' = stateMachine w \<and> invocations w' = invocations w
              \<and> notifications w' = notifications w)"
      using no pend nt by (simp add: run_refused)
  qed
  have part2: "''open'' \<in> set supplied' \<longrightarrow>
      (case exec [Call Open, Call Open] (new_Lifecycle supplied') of w \<Rightarrow>
         invocations w = [(''open'', 2)] \<and> current (stateMachine w) = ''opening''
         \<and> map snd (items w) = [0, 3]
         \<and> (case exec [Settle 2 Fulfilled, Wake 2, Wake 1, Wake 4] w of w' \<Rightarrow>
               invocations w' = [(''open'', 2)] \<and> current (stateMachine w') = ''opened''
               \<and> status w' 0 = Some Fulfilled \<and> status w' 3 = Some Fulfilled
               \<and> items w' = [] \<and> \<not> processing w'))"
    by (simp add: lifecycle_eval)
  show ?thesis by (rule conjI [OF part1 part2])
qed


theorem run_skips_disallowed_witness:
  "(case exec [Call Open] (new_Lifecycle [''open''] :: string Lifecycle) of w \<Rightarrow>
      \<not> allows ''opening'' (stateMachine w)
      \<and> (case run \<lparr>operation = Callback ''open'', interimState = ''opening'',
                     toState = ''opened''\<rparr> w of
            (r, w') \<Rightarrow> status w' r = Some Fulfilled \<and> stateMachine w' = stateMachine w
              \<and> invocations w' = invocations w \<and> notifications w' = notifications w))
   \<and> (case exec [Call Open, Call Open, Settle 2 Fulfilled, Wake 2, Wake 1, Wake 4]
              (new_Lifecycle [''open''] :: string Lifecycle) of
        w' \<Rightarrow> invocations w' = [(''open'', 2)] \<and> current (stateMachine w') = ''opened'')"
  using run_skips_disallowed
    [of "\<lparr>operation = Callback ''open'', interimState = ''opening'', toState = ''opened''\<rparr>"
      "[Call Open]" "[''open'']" "[''open'']"]
  by (simp add: lifecycle_eval)

section \<open>Lifecycle: the generic transition\<close>

text \<open>
  C4, as stated, fails: on a new controller \<^verbatim>\<open>transition('open', 'closing', 'closed')\<close>
  finds the operator, \<^verbatim>\<open>closing\<close> is no edge from \<^verbatim>\<open>init\<close>, and the call is
  fulfilled; nothing is rejected, the state stays \<^verbatim>\<open>init\<close> and no callback runs.
\<close>

theorem generic_transition_counterexample:
  "property (operations (new_Lifecycle [''open''] :: string Lifecycle)) ''open''
     = Own (Callback ''open'')
   \<and> \<not> allows_throws (stateMachine (new_Lifecycle [''open''] :: string Lifecycle))
   \<and> \<not> allows ''closing'' (stateMachine (new_Lifecycle [''open''] :: string Lifecycle))
   \<and> (case perform (Transition ''open'' ''closing'' ''closed'')
              (new_Lifecycle [''open''] :: string Lifecycle) of
        (h, w) \<Rightarrow> h = Some 0 \<and> status (step (Wake 1) w) 0 = Some Fulfilled
          \<and> current (stateMachine (step (Wake 1) w)) = ''init''
          \<and> invocations (step (Wake 1) w) = [] \<and> settled (step (Wake 1) w) = [(1, Fulfilled), (0, Fulfilled)])"
  by (simp add: lifecycle_eval)

lemma is_invalid_iff: "is_invalid s = (\<exists>a b. s = Rejected (LibraryError (InvalidTransition a b)))"
  by (cases s rule: is_invalid.cases) simp_all

lemma status_fields [simp]:
  "status (w\<lparr>items := xs\<rparr>) = status w" "status (w\<lparr>draining := fs\<rparr>) = status w"
  "status (w\<lparr>processing := b\<rparr>) = status w" "status (w\<lparr>fresh := n\<rparr>) = status w"
  "status (w\<lparr>running := rs\<rparr>) = status w" "status (w\<lparr>invocations := cs\<rparr>) = status w"
  "status (w\<lparr>notifications := ns\<rparr>) = status w"
  by (simp_all add: status_def fun_eq_iff)

lemma settled_stays: "status w x = Some s \<Longrightarrow> status (settle y s' w) x = Some s"
  by (auto simp: status_settle)

lemma settled_stays_machine_transition:
  "status w x = Some s \<Longrightarrow> status (snd (machine_transition t w)) x = Some s"
  by (cases rule: machine_transition_cases [of t w]) (simp_all add: settled_stays)

lemma settled_stays_invoke: "status w x = Some s \<Longrightarrow> status (snd (invoke f w)) x = Some s"
  by (cases f) (simp_all add: invoke_eq settled_stays)

lemma settled_stays_run: "status w x = Some s \<Longrightarrow> status (snd (run d w)) x = Some s"
  by (simp add: run_eq Let_def settled_stays settled_stays_machine_transition
      settled_stays_invoke split: option.splits)

lemma settled_stays_processLoop:
  "status w x = Some s \<Longrightarrow> status (processLoop run w) x = Some s"
  by (cases "items w") (simp_all add: processLoop_run settled_stays_run)

text \<open>
  C4, amended. No promise of a controller is ever rejected with the error of
  \<^verbatim>\<open>StateMachine.transition\<close>, whatever is called: \<^verbatim>\<open>open\<close>, \<^verbatim>\<open>close\<close>,
  \<^verbatim>\<open>suspend\<close>, \<^verbatim>\<open>resume\<close> or the generic \<^verbatim>\<open>transition\<close>. On every reachable
  controller a generic \<^verbatim>\<open>transition\<close> whose operator is found, as one of the four
  operations or as an inherited member, does what the \<^verbatim>\<open>enqueue\<close> of its descriptor
  does, and returns that handle. On a busy queue that is appending the descriptor and
  nothing else. On an idle queue the runner is called at once, and when the interim state
  is no edge from the current state it is a no-op like the others: the runner's promise is
  fulfilled at once, and when the drain loop resumes the call is fulfilled, with the state
  machine, the callbacks called and the notifications unchanged.

  And the runner makes its test when the descriptor reaches the head of the queue. On every
  reachable controller whose drain loop resumes after the head item, with a descriptor
  behind it whose interim state is no edge from the state current at that time: the runner
  is called on that descriptor and its promise is fulfilled at once, with the state
  machine, the callbacks called and the notifications unchanged, and when the drain loop
  resumes again the handle of that descriptor is fulfilled.
\<close>

theorem generic_transition_is_noop:
  "(\<forall>p a b. status (exec evs (new_Lifecycle supplied)) p
       \<noteq> Some (Rejected (LibraryError (InvalidTransition a b))))
   \<and> (case exec evsb (new_Lifecycle suppliedb) of w \<Rightarrow>
        (property (operations w) nameb = Own fb
           \<or> property (operations w) nameb = Inherited \<and> fb = Builtin nameb)
          \<and> processing w \<longrightarrow>
        perform (Transition nameb ib tb) w
          = (Some (fresh w),
             w\<lparr>fresh := Suc (fresh w),
               items := items w
                 @ [(\<lparr>operation = fb, interimState = ib, toState = tb\<rparr>, fresh w)]\<rparr>))
   \<and> (case exec evsi (new_Lifecycle suppliedi) of w \<Rightarrow>
        (property (operations w) namei = Own fi
           \<or> property (operations w) namei = Inherited \<and> fi = Builtin namei)
          \<and> \<not> processing w \<and> \<not> allows ii (stateMachine w) \<longrightarrow>
        (case perform (Transition namei ii ti) w of (h, w1) \<Rightarrow>
           h = Some (fresh w)
           \<and> w1 = snd (enqueue run \<lparr>operation = fi, interimState = ii, toState = ti\<rparr> w)
           \<and> draining w1
                = [(Suc (fresh w), \<lparr>operation = fi, interimState = ii, toState = ti\<rparr>, fresh w)]
           \<and> status w1 (Suc (fresh w)) = Some Fulfilled
           \<and> (case resumeProcessQueue run
                      (Suc (fresh w), \<lparr>operation = fi, interimState = ii, toState = ti\<rparr>,
                       fresh w) w1 of
                 w2 \<Rightarrow> status w2 (fresh w) = Some Fulfilled
                   \<and> stateMachine w2 = stateMachine w \<and> invocations w2 = invocations w
                   \<and> notifications w2 = notifications w \<and> \<not> processing w2
                   \<and> items w2 = [])))
   \<and> (case exec evsd (new_Lifecycle suppliedd) of w \<Rightarrow>
        (p, dz, hz) \<in> set (draining w) \<and> status w p = Some outcome
          \<and> items w = (dz, hz) # (d, h) # rest
          \<and> \<not> allows (interimState d) (stateMachine w) \<longrightarrow>
        (case resumeProcessQueue run (p, dz, hz) w of w1 \<Rightarrow>
           draining w1 = [(fresh w, d, h)] \<and> status w1 (fresh w) = Some Fulfilled
           \<and> status w1 h = None
           \<and> stateMachine w1 = stateMachine w \<and> invocations w1 = invocations w
           \<and> notifications w1 = notifications w
           \<and> status (resumeProcessQueue run (fresh w, d, h) w1) h = Some Fulfilled))"
proof -
  have part1: "\<forall>p a b. status (exec evs (new_Lifecycle supplied)) p
       \<noteq> Some (Rejected (LibraryError (InvalidTransition a b)))"
  proof (intro allI notI)
    fix p a b
    assume "status (exec evs (new_Lifecycle supplied)) p
              = Some (Rejected (LibraryError (InvalidTransition a b)))"
    then have "\<not> is_invalid (Rejected (LibraryError (InvalidTransition a b)) :: 'a failure settlement)"
      using no_invalid_status [OF no_invalid_exec [OF no_invalid_new]] by blast
    then show False by simp
  qed
  have part2: "property (operations w) name = Own f
          \<or> property (operations w) name = Inherited \<and> f = Builtin name \<longrightarrow>
        (case perform (Transition name i t) w of (h, w1) \<Rightarrow>
           h = Some (fresh w)
           \<and> w1 = snd (enqueue run \<lparr>operation = f, interimState = i, toState = t\<rparr> w)
           \<and> (processing w \<longrightarrow>
                w1 = w\<lparr>fresh := Suc (fresh w),
                       items := items w
                         @ [(\<lparr>operation = f, interimState = i, toState = t\<rparr>, fresh w)]\<rparr>)
           \<and> (\<not> processing w \<and> \<not> allows i (stateMachine w) \<longrightarrow>
                draining w1
                  = [(Suc (fresh w), \<lparr>operation = f, interimState = i, toState = t\<rparr>, fresh w)]
                \<and> status w1 (Suc (fresh w)) = Some Fulfilled
                \<and> (case resumeProcessQueue run
                           (Suc (fresh w), \<lparr>operation = f, interimState = i, toState = t\<rparr>,
                            fresh w) w1 of
                      w2 \<Rightarrow> status w2 (fresh w) = Some Fulfilled
                        \<and> stateMachine w2 = stateMachine w \<and> invocations w2 = invocations w
                        \<and> notifications w2 = notifications w \<and> \<not> processing w2
                        \<and> items w2 = [])))"
    if w: "w = exec evs' (new_Lifecycle supplied')"
    for w :: "'z Lifecycle" and evs' supplied' name f i t
  proof (rule impI)
    assume found: "property (operations w) name = Own f
          \<or> property (operations w) name = Inherited \<and> f = Builtin name"
    let ?d = "\<lparr>operation = f, interimState = i, toState = t\<rparr>"
    let ?f = "fresh w"
    have ok: "lifecycle_ok w" unfolding w by (rule ok_reached)
    then have hok: "heap_ok w" and sh: "shape_ok w"
      by (simp_all add: lifecycle_ok_def core_ok_def)
    have nt: "\<not> allows_throws (stateMachine w)"
      unfolding w by (rule nine_not_throws [OF nine_reached])
    have pf: "perform (Transition name i t) w = (Some ?f, snd (enqueue run ?d w))"
      using found
      by (auto simp: lifecycle_transition_def lifecycle_enqueue_def enqueue_run
          split: prod.splits)
    have busy: "snd (enqueue run ?d w) = w\<lparr>fresh := Suc ?f, items := items w @ [(?d, ?f)]\<rparr>"
      if "processing w"
      using that by (simp add: enqueue_run)
    have idle: "draining (snd (enqueue run ?d w)) = [(Suc ?f, ?d, ?f)]
                \<and> status (snd (enqueue run ?d w)) (Suc ?f) = Some Fulfilled
                \<and> (case resumeProcessQueue run (Suc ?f, ?d, ?f) (snd (enqueue run ?d w)) of
                      w2 \<Rightarrow> status w2 ?f = Some Fulfilled
                        \<and> stateMachine w2 = stateMachine w \<and> invocations w2 = invocations w
                        \<and> notifications w2 = notifications w \<and> \<not> processing w2
                        \<and> items w2 = [])"
      if idle: "\<not> processing w" and no: "\<not> allows i (stateMachine w)"
    proof -
      from sh idle have em: "items w = []" "draining w = []" by (auto simp: shape_ok_def)
      have raw: "map_of (settled w) ?f = None" "map_of (settled w) (Suc ?f) = None"
        using heap_ok_pending [OF hok, of ?f] heap_ok_pending [OF hok, of "Suc ?f"]
        by (simp_all add: status_def)
      let ?w2 = "w\<lparr>fresh := Suc ?f, items := items w @ [(?d, ?f)], processing := True\<rparr>"
      have r: "run ?d ?w2 = (Suc ?f, settle (Suc ?f) Fulfilled (?w2\<lparr>fresh := Suc (Suc ?f)\<rparr>))"
        using no nt run_refused [of ?w2 ?d] by simp
      have en: "snd (enqueue run ?d w)
                  = (settle (Suc ?f) Fulfilled (?w2\<lparr>fresh := Suc (Suc ?f)\<rparr>))
                      \<lparr>draining := [(Suc ?f, ?d, ?f)]\<rparr>"
        using idle em r by (simp add: enqueue_run processLoop_run)
      show ?thesis
        unfolding en using raw em
        by (simp add: resumeProcessQueue_run processLoop_run settle_def status_def map_add_def)
    qed
    show "case perform (Transition name i t) w of (h, w1) \<Rightarrow>
           h = Some (fresh w)
           \<and> w1 = snd (enqueue run \<lparr>operation = f, interimState = i, toState = t\<rparr> w)
           \<and> (processing w \<longrightarrow>
                w1 = w\<lparr>fresh := Suc (fresh w),
                       items := items w
                         @ [(\<lparr>operation = f, interimState = i, toState = t\<rparr>, fresh w)]\<rparr>)
           \<and> (\<not> processing w \<and> \<not> allows i (stateMachine w) \<longrightarrow>
                draining w1
                  = [(Suc (fresh w), \<lparr>operation = f, interimState = i, toState = t\<rparr>, fresh w)]
                \<and> status w1 (Suc (fresh w)) = Some Fulfilled
                \<and> (case resumeProcessQueue run
                           (Suc (fresh w), \<lparr>operation = f, interimState = i, toState = t\<rparr>,
                            fresh w) w1 of
                      w2 \<Rightarrow> status w2 (fresh w) = Some Fulfilled
                        \<and> stateMachine w2 = stateMachine w \<and> invocations w2 = invocations w
                        \<and> notifications w2 = notifications w \<and> \<not> processing w2
                        \<and> items w2 = []))"
      unfolding pf using busy idle by simp
  qed
  have part3: "(p, dz, hz) \<in> set (draining w) \<and> status w p = Some outcome
          \<and> items w = (dz, hz) # (d, h) # rest
          \<and> \<not> allows (interimState d) (stateMachine w) \<longrightarrow>
        (case resumeProcessQueue run (p, dz, hz) w of w1 \<Rightarrow>
           draining w1 = [(fresh w, d, h)] \<and> status w1 (fresh w) = Some Fulfilled
           \<and> status w1 h = None
           \<and> stateMachine w1 = stateMachine w \<and> invocations w1 = invocations w
           \<and> notifications w1 = notifications w
           \<and> status (resumeProcessQueue run (fresh w, d, h) w1) h = Some Fulfilled)"
    if w: "w = exec evsd (new_Lifecycle suppliedd)" for w :: "'d Lifecycle"
  proof (intro impI, elim conjE)
    assume frame: "(p, dz, hz) \<in> set (draining w)" and ended: "status w p = Some outcome"
      and it: "items w = (dz, hz) # (d, h) # rest"
      and no: "\<not> allows (interimState d) (stateMachine w)"
    let ?f = "fresh w"
    have ok: "lifecycle_ok w" unfolding w by (rule ok_reached)
    then have c: "core_ok w" and hok: "heap_ok w" and sh: "shape_ok w"
      by (simp_all add: lifecycle_ok_def core_ok_def)
    have nt: "\<not> allows_throws (stateMachine w)"
      unfolding w by (rule nine_not_throws [OF nine_reached])
    from sh frame have dr: "draining w = [(p, dz, hz)]"
      by (cases "draining w") (auto simp: shape_ok_def)
    have own: "hz \<in> set (owned w)" "h \<in> set (owned w)" using it by (simp_all add: owned_def)
    then have lt: "hz < ?f" "h < ?f" using c by (simp_all add: core_ok_def)
    have ne: "hz \<noteq> h" using c it by (auto simp: core_ok_def owned_def)
    have pend: "status w hz = None" "status w h = None"
      using c it by (simp_all add: core_ok_def)
    have fr: "status w ?f = None" using hok by (simp add: heap_ok_pending)
    let ?wa = "(settle hz outcome (w\<lparr>draining := remove1 (p, dz, hz) (draining w)\<rparr>))
                 \<lparr>items := tl (items w)\<rparr>"
    have sta: "status ?wa x = (if x = hz then Some outcome else status w x)" for x
      using pend(1) by (simp add: status_settle)
    have fa: "fresh ?wa = ?f" by (simp add: fresh_settle)
    have r: "run d ?wa = (?f, settle ?f Fulfilled (?wa\<lparr>fresh := Suc ?f\<rparr>))"
      using no nt run_refused [of ?wa d] fa by simp
    have first: "resumeProcessQueue run (p, dz, hz) w
                   = (settle ?f Fulfilled (?wa\<lparr>fresh := Suc ?f\<rparr>))\<lparr>draining := [(?f, d, h)]\<rparr>"
      using ended it dr r by (simp add: resumeProcessQueue_run processLoop_run)
    let ?w1 = "(settle ?f Fulfilled (?wa\<lparr>fresh := Suc ?f\<rparr>))\<lparr>draining := [(?f, d, h)]\<rparr>"
    have st1: "status ?w1 x = (if x = ?f then Some Fulfilled else status ?wa x)" for x
      using sta [of ?f] fr lt(1) by (simp add: status_settle)
    have s1f: "status ?w1 ?f = Some Fulfilled" using st1 [of ?f] by simp
    have s1h: "status ?w1 h = None" using st1 [of h] sta [of h] lt(2) ne pend(2) by simp
    let ?wb = "(settle h Fulfilled (?w1\<lparr>draining := remove1 (?f, d, h) (draining ?w1)\<rparr>))
                 \<lparr>items := tl (items ?w1)\<rparr>"
    have "status ?wb h = Some Fulfilled" using s1h by (simp add: status_settle)
    then have "status (processLoop run ?wb) h = Some Fulfilled"
      by (rule settled_stays_processLoop)
    then have second: "status (resumeProcessQueue run (?f, d, h) ?w1) h = Some Fulfilled"
      using s1f by (simp add: resumeProcessQueue_run)
    have keep: "draining ?w1 = [(?f, d, h)]" "stateMachine ?w1 = stateMachine w"
      "invocations ?w1 = invocations w" "notifications ?w1 = notifications w"
      by simp_all
    show "case resumeProcessQueue run (p, dz, hz) w of w1 \<Rightarrow>
           draining w1 = [(fresh w, d, h)] \<and> status w1 (fresh w) = Some Fulfilled
           \<and> status w1 h = None
           \<and> stateMachine w1 = stateMachine w \<and> invocations w1 = invocations w
           \<and> notifications w1 = notifications w
           \<and> status (resumeProcessQueue run (fresh w, d, h) w1) h = Some Fulfilled"
      unfolding first using keep s1f s1h second by simp
  qed
  have busy: "case exec evsb (new_Lifecycle suppliedb) of w \<Rightarrow>
        (property (operations w) nameb = Own fb
           \<or> property (operations w) nameb = Inherited \<and> fb = Builtin nameb)
          \<and> processing w \<longrightarrow>
        perform (Transition nameb ib tb) w
          = (Some (fresh w),
             w\<lparr>fresh := Suc (fresh w),
               items := items w
                 @ [(\<lparr>operation = fb, interimState = ib, toState = tb\<rparr>, fresh w)]\<rparr>)"
    using part2 [OF refl, of evsb suppliedb nameb fb ib tb] by (auto split: prod.splits)
  have idle: "case exec evsi (new_Lifecycle suppliedi) of w \<Rightarrow>
        (property (operations w) namei = Own fi
           \<or> property (operations w) namei = Inherited \<and> fi = Builtin namei)
          \<and> \<not> processing w \<and> \<not> allows ii (stateMachine w) \<longrightarrow>
        (case perform (Transition namei ii ti) w of (h, w1) \<Rightarrow>
           h = Some (fresh w)
           \<and> w1 = snd (enqueue run \<lparr>operation = fi, interimState = ii, toState = ti\<rparr> w)
           \<and> draining w1
                = [(Suc (fresh w), \<lparr>operation = fi, interimState = ii, toState = ti\<rparr>, fresh w)]
           \<and> status w1 (Suc (fresh w)) = Some Fulfilled
           \<and> (case resumeProcessQueue run
                      (Suc (fresh w), \<lparr>operation = fi, interimState = ii, toState = ti\<rparr>,
                       fresh w) w1 of
                 w2 \<Rightarrow> status w2 (fresh w) = Some Fulfilled
                   \<and> stateMachine w2 = stateMachine w \<and> invocations w2 = invocations w
                   \<and> notifications w2 = notifications w \<and> \<not> processing w2
                   \<and> items w2 = []))"
    using part2 [OF refl, of evsi suppliedi namei fi ii ti] by (auto split: prod.splits)
  show ?thesis
    using part1 busy idle part3 [OF refl] by simp
qed

theorem generic_transition_is_noop_witness:
  "status (exec [Call (Transition ''open'' ''closing'' ''closed''), Wake 1]
             (new_Lifecycle [''open''] :: string Lifecycle)) 0
     \<noteq> Some (Rejected (LibraryError (InvalidTransition ''init'' ''closing'')))
   \<and> (case exec [Call Open] (new_Lifecycle [''open''] :: string Lifecycle) of w \<Rightarrow>
        property (operations w) ''constructor'' = Inherited \<and> processing w
        \<and> perform (Transition ''constructor'' ''opening'' ''opened'') w
            = (Some 3,
               w\<lparr>fresh := 4,
                 items := items w
                   @ [(\<lparr>operation = Builtin ''constructor'', interimState = ''opening'',
                        toState = ''opened''\<rparr>, 3)]\<rparr>))
   \<and> (case new_Lifecycle [''open''] :: string Lifecycle of w \<Rightarrow>
        property (operations w) ''open'' = Own (Callback ''open'') \<and> \<not> processing w
        \<and> \<not> allows ''closing'' (stateMachine w)
        \<and> (case perform (Transition ''open'' ''closing'' ''closed'') w of (h, w1) \<Rightarrow>
              h = Some 0
              \<and> (case resumeProcessQueue run
                         (1, \<lparr>operation = Callback ''open'', interimState = ''closing'',
                               toState = ''closed''\<rparr>, 0) w1 of
                    w2 \<Rightarrow> status w2 0 = Some Fulfilled \<and> stateMachine w2 = stateMachine w
                      \<and> invocations w2 = [])))
   \<and> (case exec [Call Open, Call (Transition ''constructor'' ''opening'' ''opened''),
                 Settle 2 Fulfilled, Wake 2] (new_Lifecycle [''open''] :: string Lifecycle) of
        w \<Rightarrow>
          (1, \<lparr>operation = Callback ''open'', interimState = ''opening'',
                toState = ''opened''\<rparr>, 0) \<in> set (draining w)
          \<and> status w 1 = Some Fulfilled
          \<and> map snd (items w) = [0, 3]
          \<and> \<not> allows ''opening'' (stateMachine w)
          \<and> (case resumeProcessQueue run
                     (1, \<lparr>operation = Callback ''open'', interimState = ''opening'',
                           toState = ''opened''\<rparr>, 0) w of
                w1 \<Rightarrow> status w1 4 = Some Fulfilled
                  \<and> current (stateMachine w1) = ''opened''
                  \<and> invocations w1 = [(''open'', 2)]
                  \<and> status (resumeProcessQueue run
                               (4, \<lparr>operation = Builtin ''constructor'',
                                     interimState = ''opening'', toState = ''opened''\<rparr>, 3) w1) 3
                      = Some Fulfilled))"
  using generic_transition_is_noop
    [where evs = "[Call (Transition ''open'' ''closing'' ''closed''), Wake 1]"
      and supplied = "[''open'']"
      and evsb = "[Call Open]" and suppliedb = "[''open'']" and nameb = "''constructor''"
      and fb = "Builtin ''constructor''" and ib = "''opening''" and tb = "''opened''"
      and evsi = "[]" and suppliedi = "[''open'']" and namei = "''open''"
      and fi = "Callback ''open''" and ii = "''closing''" and ti = "''closed''"
      and evsd = "[Call Open, Call (Transition ''constructor'' ''opening'' ''opened''),
        Settle 2 Fulfilled, Wake 2]"
      and suppliedd = "[''open'']" and p = 1
      and dz = "\<lparr>operation = Callback ''open'', interimState = ''opening'',
        toState = ''opened''\<rparr>"
      and hz = 0 and outcome = Fulfilled
      and d = "\<lparr>operation = Builtin ''constructor'', interimState = ''opening'',
        toState = ''opened''\<rparr>"
      and h = 3 and rest = "[]"]
  by (simp add: lifecycle_eval)

section \<open>Lifecycle: waiting across a reset\<close>


end
